theory Spec2Isabelle
  imports
    Complex_Main
    "HOL-Library.Word"
    "HOL-Library.Char_ord"
    "HOL-Library.List_Lexorder"
    "HOL-Library.Multiset"
    "HOL-Library.Sublist"
begin

unbundle bit_operations_syntax

section \<open>The Go library functions the code calls\<close>

text \<open>
  Go strings are byte sequences; \<^typ>\<open>string\<close> is a list of bytes, and the order on it
  (bytewise lexicographic) is the one Go's \<open><\<close> on strings and \<open>sort.Strings\<close> use.
\<close>

definition strings_HasPrefix :: "string \<Rightarrow> string \<Rightarrow> bool" where
  "strings_HasPrefix s p = (length s \<ge> length p \<and> take (length p) s = p)"

definition strings_HasSuffix :: "string \<Rightarrow> string \<Rightarrow> bool" where
  "strings_HasSuffix s p = (length s \<ge> length p \<and> drop (length s - length p) s = p)"

definition strings_TrimPrefix :: "string \<Rightarrow> string \<Rightarrow> string" where
  "strings_TrimPrefix s p = (if strings_HasPrefix s p then drop (length p) s else s)"

definition strings_TrimSuffix :: "string \<Rightarrow> string \<Rightarrow> string" where
  "strings_TrimSuffix s p = (if strings_HasSuffix s p then take (length s - length p) s else s)"

text \<open>\<open>strings.TrimLeft(s, cutset)\<close>: drop the leading bytes that occur in the cutset
  (the cutsets used are ASCII).\<close>

definition strings_TrimLeft :: "string \<Rightarrow> string \<Rightarrow> string" where
  "strings_TrimLeft s cutset = dropWhile (\<lambda>c. c \<in> set cutset) s"

text \<open>\<open>strings.Index(s, substr)\<close>: the position of the first occurrence, \<open>None\<close> for Go's -1.\<close>

fun strings_Index :: "string \<Rightarrow> string \<Rightarrow> nat option" where
  "strings_Index [] sub = (if sub = [] then Some 0 else None)"
| "strings_Index (c # cs) sub =
     (if strings_HasPrefix (c # cs) sub then Some 0
      else map_option Suc (strings_Index cs sub))"

definition strings_Contains :: "string \<Rightarrow> string \<Rightarrow> bool" where
  "strings_Contains s sub = (strings_Index s sub \<noteq> None)"

text \<open>\<open>strings.Replace(s, old, new, 1)\<close>: the first occurrence of \<open>old\<close> is replaced.\<close>

definition strings_Replace1 :: "string \<Rightarrow> string \<Rightarrow> string \<Rightarrow> string" where
  "strings_Replace1 s old new =
     (case strings_Index s old of
        None \<Rightarrow> s
      | Some i \<Rightarrow> take i s @ new @ drop (i + length old) s)"

text \<open>\<open>strings.SplitN(s, "/", 2)[0]\<close>: the part before the first slash.\<close>

definition strings_SplitN2_first :: "string \<Rightarrow> string" where
  "strings_SplitN2_first s = takeWhile (\<lambda>c. c \<noteq> CHR ''/'') s"

text \<open>
  \<open>strings.ToUpper\<close> on ASCII text: a letter has bit 5 set in lower case and cleared in
  upper case; every other byte is left as it is. Go's function also maps the letters
  outside ASCII; the one caller compares the result with \<open>GET\<close> and \<open>PUT\<close>, which no
  such letter gives, so that only the text of the error for an unsupported method with
  such a letter differs.

  \<open>strings.ToLower\<close> takes its ASCII path when every byte of the string is below
  \<open>utf8.RuneSelf\<close> (0x80), and there maps the letters A to Z and nothing else. Otherwise
  it maps \<open>unicode.ToLower\<close> over the runes of the string; the Unicode tables are outside
  the repository, so that mapping is the parameter \<open>unicode_lower\<close>.
\<close>

definition ascii_lower :: "char \<Rightarrow> char" where
  "ascii_lower c =
     (if CHR ''A'' \<le> c \<and> c \<le> CHR ''Z''
      then (case c of Char b0 b1 b2 b3 b4 b5 b6 b7 \<Rightarrow> Char b0 b1 b2 b3 b4 True b6 b7)
      else c)"

definition ascii_upper :: "char \<Rightarrow> char" where
  "ascii_upper c =
     (if CHR ''a'' \<le> c \<and> c \<le> CHR ''z''
      then (case c of Char b0 b1 b2 b3 b4 b5 b6 b7 \<Rightarrow> Char b0 b1 b2 b3 b4 False b6 b7)
      else c)"

definition isASCII :: "string \<Rightarrow> bool" where
  "isASCII s = list_all (\<lambda>c. c < CHR 0x80) s"

definition strings_ToLower :: "(string \<Rightarrow> string) \<Rightarrow> string \<Rightarrow> string" where
  "strings_ToLower unicode_lower s = (if isASCII s then map ascii_lower s else unicode_lower s)"

definition strings_ToUpper :: "string \<Rightarrow> string" where
  "strings_ToUpper s = map ascii_upper s"

text \<open>
  \<open>path.Clean\<close>, as the Go library computes it: a write buffer \<open>out\<close>, the index
  \<open>dotdot\<close> below which the buffer may not be cut back, and the rest of the path still to
  read. One step reads one path element: an empty element or \<open>.\<close> is dropped, \<open>..\<close>
  cuts the buffer back to the last slash (or is appended to an unrooted path that has
  nothing left to cut), anything else is appended. A step returns the new buffer, the new
  \<open>dotdot\<close> and the number of bytes it read beyond the first.
\<close>

function backtrack :: "string \<Rightarrow> nat \<Rightarrow> nat \<Rightarrow> nat" where
  "backtrack out dotdot w =
     (if w > dotdot \<and> out ! w \<noteq> CHR ''/'' then backtrack out dotdot (w - 1) else w)"
  by pat_completeness auto
termination
  by (relation "measure (\<lambda>(out, dotdot, w). w)") auto

definition Clean_step :: "bool \<Rightarrow> string \<Rightarrow> nat \<Rightarrow> char \<Rightarrow> string \<Rightarrow> string \<times> nat \<times> nat" where
  "Clean_step rooted out dotdot c cs =
     (if c = CHR ''/'' then (out, dotdot, 0)
      else if c = CHR ''.'' \<and> (cs = [] \<or> hd cs = CHR ''/'') then (out, dotdot, 0)
      else if c = CHR ''.'' \<and> hd cs = CHR ''.'' \<and> (tl cs = [] \<or> hd (tl cs) = CHR ''/'') then
        (if length out > dotdot
         then (take (backtrack out dotdot (length out - 1)) out, dotdot, 1)
         else if \<not> rooted
         then (let out' = (if length out > 0 then out @ ''/'' else out) @ ''..''
               in (out', length out', 1))
         else (out, dotdot, 1))
      else (let out' = (if rooted \<and> length out \<noteq> 1 \<or> \<not> rooted \<and> length out \<noteq> 0
                        then out @ ''/'' else out);
                elem = takeWhile (\<lambda>x. x \<noteq> CHR ''/'') cs
            in (out' @ c # elem, dotdot, length elem)))"

fun Clean_loop :: "bool \<Rightarrow> string \<Rightarrow> nat \<Rightarrow> string \<Rightarrow> string" where
  "Clean_loop rooted out dotdot [] = out"
| "Clean_loop rooted out dotdot (c # cs) =
     (case Clean_step rooted out dotdot c cs of
        (out', dotdot', n) \<Rightarrow> Clean_loop rooted out' dotdot' (drop n cs))"

definition path_Clean :: "string \<Rightarrow> string" where
  "path_Clean path =
     (if path = [] then ''.''
      else (let rooted = (hd path = CHR ''/'');
                out = (if rooted then Clean_loop True ''/'' 1 (tl path)
                       else Clean_loop False [] 0 path)
            in if out = [] then ''.'' else out))"

text \<open>
  \<open>float64(n)\<close> for a 64-bit integer: the nearest number with a 53-bit mantissa, ties to
  the even mantissa. Every number below \<open>2^53\<close> is kept as it is. The floating-point
  numbers of \<open>formatByteSize\<close> are these and their quotients by 1024, which a binary
  format computes exactly, so they are modelled as rationals.
\<close>

function bit_length :: "int \<Rightarrow> nat" where
  "bit_length n = (if n \<le> 0 then 0 else Suc (bit_length (n div 2)))"
  by pat_completeness auto
termination
  by (relation "measure nat") auto

declare bit_length.simps [simp del]

definition round_half_even :: "rat \<Rightarrow> int" where
  "round_half_even x =
     (let t = \<lfloor>x\<rfloor>; d = x - of_int t
      in if d < 1 / 2 then t else if 1 / 2 < d then t + 1 else if even t then t else t + 1)"

definition float64_of_int64 :: "int \<Rightarrow> rat" where
  "float64_of_int64 n =
     (let e = bit_length \<bar>n\<bar> - 53
      in of_int (round_half_even (of_int n / 2 ^ e)) * 2 ^ e)"

text \<open>
  \<open>fmt.Sprintf("%.1f", f)\<close> for \<open>f \<ge> 0\<close>: the exact value of \<open>f\<close> rounded to one
  decimal, ties to the even digit, printed in decimal.
\<close>

definition digit :: "nat \<Rightarrow> char" where
  "digit d = ''0123456789'' ! d"

fun decimal :: "nat \<Rightarrow> string" where
  "decimal n = (if n < 10 then [digit n] else decimal (n div 10) @ [digit (n mod 10)])"

declare decimal.simps [simp del]

definition Sprintf_1f :: "rat \<Rightarrow> string" where
  "Sprintf_1f f =
     (let tenths = nat (round_half_even (f * 10))
      in decimal (tenths div 10) @ ''.'' @ decimal (tenths mod 10))"

section \<open>Errors\<close>

text \<open>A Go \<open>error\<close> is its message; \<open>fmt.Errorf("...: %w", err)\<close> prepends to it.\<close>

datatype error = Error string

fun error_string :: "error \<Rightarrow> string" where
  "error_string (Error m) = m"

section \<open>Presigned URLs\<close>

text \<open>
  \<open>time.Duration\<close> is a signed 64-bit count of nanoseconds; arithmetic on it wraps.
\<close>

type_synonym Duration = "64 word"

definition time_Second :: Duration where
  "time_Second = 1000000000"

definition time_Minute :: Duration where
  "time_Minute = 60 * time_Second"

record PresignInput =
  Bucket :: string
  PresignInput_Key :: string
  PresignInput_Method :: string
  ExpiresIn :: Duration
  ContentType :: "string option"

record PresignOutput =
  URL :: string
  PresignOutput_Method :: string

text \<open>
  The SDK's presign client is outside the repository: it is a parameter, a function from
  the request it is given (with the expiry set by the options callback) to a signed URL
  or an error.
\<close>

datatype presign_request =
    PresignPutObject string string "string option" Duration
  | PresignGetObject string string Duration

definition PresignObject ::
  "(presign_request \<Rightarrow> error + string) \<Rightarrow> PresignInput \<Rightarrow> error + PresignOutput" where
  "PresignObject presignClient input0 =
     (let input = (if sint (ExpiresIn input0) \<le> 0
                   then input0\<lparr>ExpiresIn := 15 * time_Minute\<rparr> else input0);
          method = strings_ToUpper (PresignInput_Method input)
      in if method = ''PUT'' then
           (case presignClient (PresignPutObject (Bucket input) (PresignInput_Key input)
                                  (ContentType input) (ExpiresIn input)) of
              Inl err \<Rightarrow> Inl err
            | Inr url \<Rightarrow> Inr \<lparr>URL = url, PresignOutput_Method = ''PUT''\<rparr>)
         else if method = ''GET'' then
           (case presignClient (PresignGetObject (Bucket input) (PresignInput_Key input)
                                  (ExpiresIn input)) of
              Inl err \<Rightarrow> Inl err
            | Inr url \<Rightarrow> Inr \<lparr>URL = url, PresignOutput_Method = ''GET''\<rparr>)
         else Inl (Error (''unsupported method '' @ method)))"

text \<open>
  The HTTP handler's choice of expiry: \<open>expiresInSeconds\<close> of the request body when it is
  there, 15 minutes otherwise.
\<close>

definition Handler_PresignObject_expires :: "64 word option \<Rightarrow> Duration" where
  "Handler_PresignObject_expires req_Expires =
     (case req_Expires of
        Some e \<Rightarrow> e * time_Second
      | None \<Rightarrow> 15 * time_Minute)"


section \<open>The object store behind the SDK client\<close>

text \<open>
  The S3 service and the SDK client are outside the repository. They are modelled by what
  the spec's interface section says of them: a flat namespace of keys, a prefix listing
  that returns \<open>(key, size, lastModified)\<close> tuples page by page with a truncation flag
  and a continuation cursor, a quiet batch delete, a server-side copy that fails when
  its source is absent, and a get. Any call may fail in transit: \<open>faults\<close> gives the
  outcome of the successive calls (\<open>True\<close>: this call fails; an exhausted list: no more
  failures). A single bucket is modelled, so the bucket name is dropped, as are the
  request context and the lookups of the bucket record and of its credentials that come
  before every operation.
\<close>

record Object =
  Object_Key :: "string option"
  Object_Size :: "int option"
  Object_LastModified :: "int option"

record 'tok ListObjectsV2Output =
  Contents :: "Object list"
  IsTruncated :: "bool option"
  NextContinuationToken :: "'tok option"

record stored =
  content :: string
  modified :: int

record s3 =
  objects :: "(string \<times> stored) list"
  faults :: "bool list"
  max_keys :: nat
  clock :: int

definition s3_call :: "s3 \<Rightarrow> bool \<times> s3" where
  "s3_call st = (case faults st of [] \<Rightarrow> (False, st) | f # fs \<Rightarrow> (f, st\<lparr>faults := fs\<rparr>))"

definition object_of :: "string \<times> stored \<Rightarrow> Object" where
  "object_of kv = \<lparr>Object_Key = Some (fst kv),
                   Object_Size = Some (int (length (content (snd kv)))),
                   Object_LastModified = Some (modified (snd kv))\<rparr>"

definition matching :: "string \<Rightarrow> s3 \<Rightarrow> (string \<times> stored) list" where
  "matching pfx st = filter (\<lambda>kv. strings_HasPrefix (fst kv) pfx) (objects st)"

definition client_ListObjectsV2 ::
  "string \<Rightarrow> nat option \<Rightarrow> s3 \<Rightarrow> (error + nat ListObjectsV2Output) \<times> s3" where
  "client_ListObjectsV2 pfx token st =
     (case s3_call st of
        (True, st') \<Rightarrow> (Inl (Error ''RequestError''), st')
      | (False, st') \<Rightarrow>
          (let start = (case token of None \<Rightarrow> 0 | Some n \<Rightarrow> n);
               more = (start + max_keys st' < length (matching pfx st'))
           in (Inr \<lparr>Contents = map object_of (take (max_keys st') (drop start (matching pfx st'))),
                    IsTruncated = Some more,
                    NextContinuationToken = (if more then Some (start + max_keys st') else None)\<rparr>,
               st')))"

definition client_DeleteObjects :: "string list \<Rightarrow> s3 \<Rightarrow> error option \<times> s3" where
  "client_DeleteObjects keys st =
     (case s3_call st of
        (True, st') \<Rightarrow> (Some (Error ''RequestError''), st')
      | (False, st') \<Rightarrow>
          (None, st'\<lparr>objects := filter (\<lambda>kv. fst kv \<notin> set keys) (objects st')\<rparr>))"

definition put_stored :: "string \<Rightarrow> stored \<Rightarrow> (string \<times> stored) list \<Rightarrow> (string \<times> stored) list" where
  "put_stored k v kvs =
     (if k \<in> fst ` set kvs then map (\<lambda>kv. if fst kv = k then (k, v) else kv) kvs
      else kvs @ [(k, v)])"

definition client_CopyObject :: "string \<Rightarrow> string \<Rightarrow> s3 \<Rightarrow> error option \<times> s3" where
  "client_CopyObject sourceKey destinationKey st =
     (case s3_call st of
        (True, st') \<Rightarrow> (Some (Error ''RequestError''), st')
      | (False, st') \<Rightarrow>
          (case map_of (objects st') sourceKey of
             None \<Rightarrow> (Some (Error ''NoSuchKey''), st')
           | Some v \<Rightarrow>
               (None, st'\<lparr>objects := put_stored destinationKey
                                        \<lparr>content = content v, modified = clock st'\<rparr> (objects st')\<rparr>)))"

definition client_GetObject :: "string \<Rightarrow> s3 \<Rightarrow> (error + string) \<times> s3" where
  "client_GetObject key st =
     (case s3_call st of
        (True, st') \<Rightarrow> (Inl (Error ''RequestError''), st')
      | (False, st') \<Rightarrow>
          (case map_of (objects st') key of
             None \<Rightarrow> (Inl (Error ''NoSuchKey''), st')
           | Some v \<Rightarrow> (Inr (content v), st')))"

section \<open>storage.ObjectStore\<close>


text \<open>
  \<open>ListAllObjects\<close>: the loop follows the cursor for as long as the store signals a
  truncated page and gives a next token. Nothing bounds the number of pages, so the loop
  is a partial function: \<open>None\<close> is a run that never returns. The client is a parameter
  of the loop, a function from the token (and the state of the store) to a page or an error.
\<close>

partial_function (option) ListAllObjects_loop ::
  "('tok option \<Rightarrow> 'st \<Rightarrow> (error + 'tok ListObjectsV2Output) \<times> 'st)
     \<Rightarrow> 'tok option \<Rightarrow> Object list \<Rightarrow> 'st \<Rightarrow> ((error + Object list) \<times> 'st) option" where
  "ListAllObjects_loop client continuationToken result st =
     (case client continuationToken st of
        (Inl err, st') \<Rightarrow> Some (Inl err, st')
      | (Inr out, st') \<Rightarrow>
          (let result' = result @ Contents out
           in if IsTruncated out = Some True \<and> NextContinuationToken out \<noteq> None
              then ListAllObjects_loop client (NextContinuationToken out) result' st'
              else Some (Inr result', st')))"

declare ListAllObjects_loop.simps [code]

definition ListAllObjects ::
  "('tok option \<Rightarrow> 'st \<Rightarrow> (error + 'tok ListObjectsV2Output) \<times> 'st)
     \<Rightarrow> 'st \<Rightarrow> ((error + Object list) \<times> 'st) option" where
  "ListAllObjects client st = ListAllObjects_loop client None [] st"

definition ObjectStore_ListAllObjects :: "string \<Rightarrow> s3 \<Rightarrow> ((error + Object list) \<times> s3) option" where
  "ObjectStore_ListAllObjects pfx st = ListAllObjects (client_ListObjectsV2 pfx) st"

text \<open>\<open>DeleteObjects\<close>: chunks of at most 1000 keys, one quiet batch delete per chunk.\<close>

function DeleteObjects_loop :: "string list \<Rightarrow> nat \<Rightarrow> s3 \<Rightarrow> error option \<times> s3" where
  "DeleteObjects_loop keys start st =
     (if start < length keys
      then (case client_DeleteObjects
                   (take (min (start + 1000) (length keys) - start) (drop start keys)) st of
              (Some err, st') \<Rightarrow> (Some err, st')
            | (None, st') \<Rightarrow> DeleteObjects_loop keys (start + 1000) st')
      else (None, st))"
  by pat_completeness auto
termination
  by (relation "measure (\<lambda>(keys, start, st). length keys - start)") auto

declare DeleteObjects_loop.simps [simp del]

definition ObjectStore_DeleteObjects :: "string list \<Rightarrow> s3 \<Rightarrow> error option \<times> s3" where
  "ObjectStore_DeleteObjects keys st =
     (if length keys = 0 then (None, st) else DeleteObjects_loop keys 0 st)"

text \<open>
  \<open>CopyObject\<close>: the copy source is the bucket and the path-escaped key with its slashes
  restored, which the store decodes back to the key.
\<close>

definition ObjectStore_CopyObject :: "string \<Rightarrow> string \<Rightarrow> s3 \<Rightarrow> error option \<times> s3" where
  "ObjectStore_CopyObject sourceKey destinationKey st =
     client_CopyObject sourceKey destinationKey st"

definition ObjectStore_GetObject :: "string \<Rightarrow> s3 \<Rightarrow> (error + string) \<times> s3" where
  "ObjectStore_GetObject key st = client_GetObject key st"

section \<open>service.BucketService\<close>

subsection \<open>formatByteSize\<close>

definition units :: "string list" where
  "units = [''B'', ''KB'', ''MB'', ''GB'', ''TB'']"

function formatByteSize_loop :: "rat \<Rightarrow> nat \<Rightarrow> rat \<times> nat" where
  "formatByteSize_loop f i =
     (if f \<ge> 1024 \<and> i < length units - 1 then formatByteSize_loop (f / 1024) (i + 1)
      else (f, i))"
  by pat_completeness auto
termination
  by (relation "measure (\<lambda>(f, i). length units - 1 - i)") auto

declare formatByteSize_loop.simps [simp del]

definition formatByteSize :: "int \<Rightarrow> string" where
  "formatByteSize bytes =
     (if bytes \<le> 0 then ''0 B''
      else (case formatByteSize_loop (float64_of_int64 bytes) 0 of
              (f, i) \<Rightarrow> Sprintf_1f f @ '' '' @ units ! i))"

subsection \<open>ListObjects\<close>

record BucketObject =
  Key :: string
  Name :: string
  Kind :: string
  Size :: string
  LastModified :: int
  Icon :: string
  IconColor :: string

text \<open>
  The body of the loop over the listed objects, block by block. First the key is
  filtered and normalized: with a prefix, a key outside it is skipped, the prefix is cut
  off and leading slashes are stripped; an empty remainder is skipped (\<open>None\<close> stands for
  the \<open>continue\<close>).
\<close>

definition ListObjects_key :: "string \<Rightarrow> string \<Rightarrow> string option" where
  "ListObjects_key s3Prefix key0 =
     (if s3Prefix \<noteq> '''' \<and> \<not> strings_HasPrefix key0 s3Prefix then None
      else (let key1 = (if s3Prefix \<noteq> '''' then strings_TrimPrefix key0 s3Prefix else key0);
                key = (if s3Prefix \<noteq> '''' \<and> strings_HasPrefix key1 ''/''
                       then strings_TrimLeft key1 ''/'' else key1)
            in if key = '''' then None else Some key))"

text \<open>The folder entry made for a key that contains a slash, and the file entry
  made for one that does not.\<close>

definition folder_entry :: "string \<Rightarrow> string \<Rightarrow> BucketObject" where
  "folder_entry s3Prefix key =
     (let folderRaw = strings_SplitN2_first key;
          folderDisplay = (if folderRaw = '''' then ''(empty)'' else folderRaw);
          folderPrefix0 = s3Prefix @ folderRaw;
          folderPrefix = (if \<not> strings_HasSuffix folderPrefix0 ''/''
                          then folderPrefix0 @ ''/'' else folderPrefix0)
      in \<lparr>Key = folderPrefix, Name = folderDisplay, Kind = ''folder'', Size = '''',
          LastModified = 0, Icon = ''folder'', IconColor = ''text-amber-500''\<rparr>)"

definition file_entry :: "string \<Rightarrow> string \<Rightarrow> Object \<Rightarrow> BucketObject" where
  "file_entry s3Prefix key obj =
     \<lparr>Key = s3Prefix @ key, Name = key, Kind = ''file'',
      Size = formatByteSize (case Object_Size obj of None \<Rightarrow> 0 | Some n \<Rightarrow> n),
      LastModified = (case Object_LastModified obj of None \<Rightarrow> 0 | Some t \<Rightarrow> t),
      Icon = ''description'', IconColor = ''text-slate-500''\<rparr>"

text \<open>
  The state of the loop is the map of the folders seen so far, their keys in the order
  they were first seen, and the files. A folder is entered once, under its key.
\<close>

type_synonym grouping = "(string \<rightharpoonup> BucketObject) \<times> string list \<times> BucketObject list"

definition ListObjects_group :: "string \<Rightarrow> grouping \<Rightarrow> Object \<Rightarrow> grouping" where
  "ListObjects_group s3Prefix acc obj =
     (case acc of (folderMap, folderKeys, files) \<Rightarrow>
      (case Object_Key obj of
         None \<Rightarrow> acc
       | Some key0 \<Rightarrow>
           (case ListObjects_key s3Prefix key0 of
              None \<Rightarrow> acc
            | Some key \<Rightarrow>
                if strings_Contains key ''/'' then
                  (let folder = folder_entry s3Prefix key
                   in if folderMap (Key folder) = None
                      then (folderMap(Key folder \<mapsto> folder), folderKeys @ [Key folder], files)
                      else acc)
                else (folderMap, folderKeys, files @ [file_entry s3Prefix key obj]))))"

definition zero_BucketObject :: BucketObject where
  "zero_BucketObject = \<lparr>Key = '''', Name = '''', Kind = '''', Size = '''', LastModified = 0,
                         Icon = '''', IconColor = ''''\<rparr>"

definition files_less :: "(string \<Rightarrow> string) \<Rightarrow> BucketObject \<Rightarrow> BucketObject \<Rightarrow> bool" where
  "files_less unicode_lower a b
     = (strings_ToLower unicode_lower (Name a) < strings_ToLower unicode_lower (Name b))"


text \<open>
  The projection of a listing, after the store has answered. \<open>sort.Strings\<close> gives the one
  ascending arrangement of the folder keys, strings being compared byte by byte.
  \<open>sort.Slice\<close> is a parameter: the Go library promises a permutation in the order of the
  comparison and no stability.
\<close>

definition ListObjects_project ::
  "((BucketObject \<Rightarrow> BucketObject \<Rightarrow> bool) \<Rightarrow> BucketObject list \<Rightarrow> BucketObject list)
     \<Rightarrow> (string \<Rightarrow> string) \<Rightarrow> Object list \<Rightarrow> string \<Rightarrow> BucketObject list" where
  "ListObjects_project sort_Slice unicode_lower objs s3Prefix =
     (case foldl (ListObjects_group s3Prefix) (Map.empty, [], []) objs of
        (folderMap, folderKeys, files) \<Rightarrow>
          map (\<lambda>key. case folderMap key of Some b \<Rightarrow> b | None \<Rightarrow> zero_BucketObject)
              (sort folderKeys)
          @ sort_Slice (files_less unicode_lower) files)"


subsection \<open>The listing, entry by entry\<close>

text \<open>
  What one listed object contributes to the listing: the folder entry or the file entry
  the loop body makes for it, read off the same blocks.
\<close>

definition folder_of :: "string \<Rightarrow> Object \<Rightarrow> BucketObject option" where
  "folder_of s3Prefix obj =
     (case Object_Key obj of
        None \<Rightarrow> None
      | Some key0 \<Rightarrow>
          (case ListObjects_key s3Prefix key0 of
             None \<Rightarrow> None
           | Some key \<Rightarrow>
               if strings_Contains key ''/'' then Some (folder_entry s3Prefix key) else None))"

definition file_of :: "string \<Rightarrow> Object \<Rightarrow> BucketObject option" where
  "file_of s3Prefix obj =
     (case Object_Key obj of
        None \<Rightarrow> None
      | Some key0 \<Rightarrow>
          (case ListObjects_key s3Prefix key0 of
             None \<Rightarrow> None
           | Some key \<Rightarrow>
               if strings_Contains key ''/'' then None else Some (file_entry s3Prefix key obj)))"

text \<open>The listing before the two sorts: the folders in the order first seen, then the files.\<close>

definition ListObjects_grouped :: "Object list \<Rightarrow> string \<Rightarrow> BucketObject list" where
  "ListObjects_grouped objs s3Prefix =
     (case foldl (ListObjects_group s3Prefix) (Map.empty, [], []) objs of
        (folderMap, folderKeys, files) \<Rightarrow>
          map (\<lambda>key. case folderMap key of Some b \<Rightarrow> b | None \<Rightarrow> zero_BucketObject) folderKeys
          @ files)"

definition folder_lookup :: "(string \<rightharpoonup> BucketObject) \<Rightarrow> string \<Rightarrow> BucketObject" where
  "folder_lookup folderMap key = (case folderMap key of Some b \<Rightarrow> b | None \<Rightarrow> zero_BucketObject)"

text \<open>The invariant of the loop, after the objects \<open>objs\<close> have been gone through.\<close>

definition grouping_ok :: "string \<Rightarrow> Object list \<Rightarrow> grouping \<Rightarrow> bool" where
  "grouping_ok P objs acc =
     (case acc of (fm, fk, fs) \<Rightarrow>
        distinct fk \<and> dom fm = set fk
        \<and> (\<forall>k \<in> set fk. \<exists>b. fm k = Some b \<and> Key b = k \<and> Kind b = ''folder'')
        \<and> set fk = Key ` set (List.map_filter (folder_of P) objs)
        \<and> fs = List.map_filter (file_of P) objs)"

text \<open>
  The immediate child segment of a key under a prefix, in the words of the spec: what
  follows the prefix up to and including the next slash, or all of it when no slash
  follows. The prefix itself (its folder marker) and a key outside the prefix have none.
\<close>

definition child_segment :: "string \<Rightarrow> string \<Rightarrow> string option" where
  "child_segment pfx key =
     (if strings_HasPrefix key pfx \<and> drop (length pfx) key \<noteq> []
      then (let rest = drop (length pfx) key
            in if CHR ''/'' \<in> set rest
               then Some (takeWhile (\<lambda>c. c \<noteq> CHR ''/'') rest @ ''/'')
               else Some rest)
      else None)"

text \<open>
  One \<open>sort.Slice\<close>: the insertion sort, which moves each element to the left for as long
  as it is less than its left neighbour.
\<close>

definition insert_left :: "('a \<Rightarrow> 'a \<Rightarrow> bool) \<Rightarrow> 'a \<Rightarrow> 'a list \<Rightarrow> 'a list" where
  "insert_left lessFn x sorted_part =
     rev (dropWhile (lessFn x) (rev sorted_part)) @ [x]
     @ rev (takeWhile (lessFn x) (rev sorted_part))"

definition insertion_sort :: "('a \<Rightarrow> 'a \<Rightarrow> bool) \<Rightarrow> 'a list \<Rightarrow> 'a list" where
  "insertion_sort lessFn xs = foldl (\<lambda>sorted_part x. insert_left lessFn x sorted_part) [] xs"

subsection \<open>DeleteObjects, RenameObject, CopyObject\<close>

record DeleteObjectsResult =
  Deleted :: "string list"
  Failed :: "string list"

record OperationResult =
  Success :: bool
  Message :: string

fun DeleteObjects_expand ::
  "string list \<Rightarrow> string list \<Rightarrow> s3 \<Rightarrow> ((error + string list) \<times> s3) option" where
  "DeleteObjects_expand [] allKeysToDelete st = Some (Inr allKeysToDelete, st)"
| "DeleteObjects_expand (key # keys) allKeysToDelete st =
     (if strings_HasSuffix key ''/'' then
        (case ObjectStore_ListAllObjects key st of
           None \<Rightarrow> None
         | Some (Inl err, st') \<Rightarrow> Some (Inl err, st')
         | Some (Inr objs, st') \<Rightarrow>
             DeleteObjects_expand keys
               (allKeysToDelete @ List.map_filter Object_Key objs @ [key]) st')
      else DeleteObjects_expand keys (allKeysToDelete @ [key]) st)"

definition BucketService_DeleteObjects ::
  "string list \<Rightarrow> s3 \<Rightarrow> ((DeleteObjectsResult \<times> error option) \<times> s3) option" where
  "BucketService_DeleteObjects keys st =
     (case DeleteObjects_expand keys [] st of
        None \<Rightarrow> None
      | Some (Inl err, st') \<Rightarrow>
          Some ((\<lparr>Deleted = [], Failed = keys\<rparr>,
                 Some (Error (''failed to list folder contents: '' @ error_string err))), st')
      | Some (Inr allKeysToDelete, st') \<Rightarrow>
          if length allKeysToDelete = 0
          then Some ((\<lparr>Deleted = [], Failed = []\<rparr>, None), st')
          else (case ObjectStore_DeleteObjects allKeysToDelete st' of
                  (Some err, st'') \<Rightarrow> Some ((\<lparr>Deleted = [], Failed = keys\<rparr>, Some err), st'')
                | (None, st'') \<Rightarrow> Some ((\<lparr>Deleted = keys, Failed = []\<rparr>, None), st'')))"

text \<open>The copies of a folder rename: the loop stops at the first copy that fails.\<close>

fun RenameObject_copies ::
  "string \<Rightarrow> string \<Rightarrow> Object list \<Rightarrow> s3 \<Rightarrow> (string \<times> error) option \<times> s3" where
  "RenameObject_copies sourceKey destinationKey [] st = (None, st)"
| "RenameObject_copies sourceKey destinationKey (obj # objs) st =
     (case Object_Key obj of
        None \<Rightarrow> RenameObject_copies sourceKey destinationKey objs st
      | Some oldKey \<Rightarrow>
          (case ObjectStore_CopyObject oldKey
                  (strings_Replace1 oldKey sourceKey destinationKey) st of
             (Some err, st') \<Rightarrow> (Some (oldKey, err), st')
           | (None, st') \<Rightarrow> RenameObject_copies sourceKey destinationKey objs st'))"

definition RenameObject_folder ::
  "string \<Rightarrow> string \<Rightarrow> Object list \<Rightarrow> s3 \<Rightarrow> (OperationResult \<times> error option) \<times> s3" where
  "RenameObject_folder sourceKey destinationKey objs st =
     (case RenameObject_copies sourceKey destinationKey objs st of
        (Some (oldKey, err), st1) \<Rightarrow>
          ((\<lparr>Success = False,
             Message = ''failed to copy object '' @ oldKey @ '': '' @ error_string err\<rparr>,
            Some err), st1)
      | (None, st1) \<Rightarrow>
          (case ObjectStore_CopyObject sourceKey destinationKey st1 of
             (Some err, st2) \<Rightarrow>
               ((\<lparr>Success = False,
                  Message = ''failed to copy folder marker: '' @ error_string err\<rparr>,
                 Some err), st2)
           | (None, st2) \<Rightarrow>
               (case ObjectStore_DeleteObjects [sourceKey] st2 of
                  (Some err, st3) \<Rightarrow>
                    ((\<lparr>Success = False,
                       Message = ''copied but failed to delete original: '' @ error_string err\<rparr>,
                      Some err), st3)
                | (None, st3) \<Rightarrow>
                    ((\<lparr>Success = True, Message = ''Object renamed successfully''\<rparr>, None), st3))))"

definition RenameObject_file ::
  "string \<Rightarrow> string \<Rightarrow> s3 \<Rightarrow> (OperationResult \<times> error option) \<times> s3" where
  "RenameObject_file sourceKey destinationKey st =
     (case ObjectStore_CopyObject sourceKey destinationKey st of
        (Some err, st1) \<Rightarrow>
          ((\<lparr>Success = False, Message = ''failed to copy object: '' @ error_string err\<rparr>,
            Some err), st1)
      | (None, st1) \<Rightarrow>
          (case ObjectStore_DeleteObjects [sourceKey] st1 of
             (Some err, st2) \<Rightarrow>
               ((\<lparr>Success = False,
                  Message = ''copied but failed to delete original: '' @ error_string err\<rparr>,
                 Some err), st2)
           | (None, st2) \<Rightarrow>
               ((\<lparr>Success = True, Message = ''Object renamed successfully''\<rparr>, None), st2)))"

definition BucketService_RenameObject ::
  "string \<Rightarrow> string \<Rightarrow> s3 \<Rightarrow> ((OperationResult \<times> error option) \<times> s3) option" where
  "BucketService_RenameObject sourceKey destinationKey st =
     (if strings_HasSuffix sourceKey ''/'' then
        (case ObjectStore_ListAllObjects sourceKey st of
           None \<Rightarrow> None
         | Some (Inl err, st') \<Rightarrow>
             Some ((\<lparr>Success = False,
                     Message = ''failed to list folder contents: '' @ error_string err\<rparr>,
                    Some err), st')
         | Some (Inr objs, st') \<Rightarrow> Some (RenameObject_folder sourceKey destinationKey objs st'))
      else Some (RenameObject_file sourceKey destinationKey st))"

definition BucketService_CopyObject ::
  "string \<Rightarrow> string \<Rightarrow> s3 \<Rightarrow> (OperationResult \<times> error option) \<times> s3" where
  "BucketService_CopyObject sourceKey destinationKey st =
     (case ObjectStore_CopyObject sourceKey destinationKey st of
        (Some err, st') \<Rightarrow>
          ((\<lparr>Success = False, Message = ''failed to copy object: '' @ error_string err\<rparr>,
            Some err), st')
      | (None, st') \<Rightarrow>
          ((\<lparr>Success = True, Message = ''Object copied successfully''\<rparr>, None), st'))"

subsection \<open>ZipFolder\<close>

text \<open>
  The zip writer writes into a pipe whose reader may go away, so creating an entry and
  copying a body into it may fail: \<open>pipe_faults\<close> gives the outcome of the successive
  writes, \<open>Some n\<close> for a write that fails after \<open>n\<close> bytes of the body. The archive is the
  list of its entries, name and body, in the order they were created.
\<close>

record zip_Writer =
  entries :: "(string \<times> string) list"
  pipe_faults :: "nat option list"

definition pipe_call :: "zip_Writer \<Rightarrow> nat option \<times> zip_Writer" where
  "pipe_call zw =
     (case pipe_faults zw of [] \<Rightarrow> (None, zw) | f # fs \<Rightarrow> (f, zw\<lparr>pipe_faults := fs\<rparr>))"

definition zip_Create :: "string \<Rightarrow> zip_Writer \<Rightarrow> bool \<times> zip_Writer" where
  "zip_Create name zw =
     (case pipe_call zw of
        (Some n, zw') \<Rightarrow> (False, zw')
      | (None, zw') \<Rightarrow> (True, zw'\<lparr>entries := entries zw' @ [(name, [])]\<rparr>))"

definition io_Copy :: "string \<Rightarrow> zip_Writer \<Rightarrow> bool \<times> zip_Writer" where
  "io_Copy body zw =
     (case pipe_call zw of
        (Some n, zw') \<Rightarrow>
          (False, zw'\<lparr>entries := butlast (entries zw') @ [(fst (last (entries zw')), take n body)]\<rparr>)
      | (None, zw') \<Rightarrow>
          (True, zw'\<lparr>entries := butlast (entries zw') @ [(fst (last (entries zw')), body)]\<rparr>))"

definition unsafe_path :: "string \<Rightarrow> bool" where
  "unsafe_path safePath =
     (safePath = '''' \<or> safePath = ''.'' \<or> strings_HasPrefix safePath ''..''
      \<or> strings_Contains safePath ''../'')"

definition ZipFolder_entry :: "string \<Rightarrow> s3 \<times> zip_Writer \<Rightarrow> Object \<Rightarrow> s3 \<times> zip_Writer" where
  "ZipFolder_entry pfx acc obj =
     (case Object_Key obj of
        None \<Rightarrow> acc
      | Some key \<Rightarrow>
          if key = pfx then acc
          else (case ObjectStore_GetObject key (fst acc) of
                  (Inl err, st') \<Rightarrow> (st', snd acc)
                | (Inr body, st') \<Rightarrow>
                    (let relativePath = strings_TrimPrefix key pfx;
                         safePath = strings_TrimPrefix (path_Clean relativePath) ''/''
                     in if unsafe_path safePath then (st', snd acc)
                        else (case zip_Create safePath (snd acc) of
                                (False, zw') \<Rightarrow> (st', zw')
                              | (True, zw') \<Rightarrow> (st', snd (io_Copy body zw'))))))"

definition zip_filename :: "string \<Rightarrow> string" where
  "zip_filename pfx =
     (let folderName = strings_TrimSuffix pfx ''/''
      in (if folderName = '''' then ''download'' else folderName) @ ''.zip'')"

definition BucketService_ZipFolder ::
  "string \<Rightarrow> nat option list \<Rightarrow> s3 \<Rightarrow> ((error + zip_Writer \<times> string) \<times> s3) option" where
  "BucketService_ZipFolder pfx pipe st =
     (case ObjectStore_ListAllObjects pfx st of
        None \<Rightarrow> None
      | Some (Inl err, st') \<Rightarrow> Some (Inl err, st')
      | Some (Inr objs, st') \<Rightarrow>
          (case foldl (ZipFolder_entry pfx) (st', \<lparr>entries = [], pipe_faults = pipe\<rparr>) objs of
             (st'', zw) \<Rightarrow> Some (Inr (zw, zip_filename pfx), st'')))"
section \<open>Fixtures\<close>

text \<open>
  A backend that answers the paginated listing from a fixed list of pages, whatever their
  sizes: page \<open>i\<close> is truncated, with the token of page \<open>i + 1\<close>, exactly when there is a
  page \<open>i + 1\<close>. The start of the store's own paging is the offset its token stands for.
\<close>

definition paged_backend ::
  "Object list list \<Rightarrow> nat option \<Rightarrow> 'st \<Rightarrow> (error + nat ListObjectsV2Output) \<times> 'st" where
  "paged_backend pages token st =
     (let i = (case token of None \<Rightarrow> 0 | Some n \<Rightarrow> n)
      in (Inr \<lparr>Contents = (if i < length pages then pages ! i else []),
               IsTruncated = Some (Suc i < length pages),
               NextContinuationToken = (if Suc i < length pages then Some (Suc i) else None)\<rparr>,
          st))"

definition token_start :: "nat option \<Rightarrow> nat" where
  "token_start token = (case token of None \<Rightarrow> 0 | Some n \<Rightarrow> n)"

text \<open>The bucket of the rename example, with one more object outside the folder.\<close>

definition fixture :: s3 where
  "fixture = \<lparr>objects = [(''a/'', \<lparr>content = '''', modified = 1\<rparr>),
                         (''a/x'', \<lparr>content = ''hello'', modified = 2\<rparr>),
                         (''c'', \<lparr>content = ''other'', modified = 2\<rparr>),
                         (''a/y/z'', \<lparr>content = ''zz'', modified = 3\<rparr>)],
              faults = [], max_keys = 1000, clock = 10\<rparr>"

text \<open>The sanitized relative path of a key, the body the store holds for it, and the
  archive that is due for a list of keys. The bucket of the archive example.\<close>

definition safe_name :: "string \<Rightarrow> string \<Rightarrow> string" where
  "safe_name pfx key = strings_TrimPrefix (path_Clean (strings_TrimPrefix key pfx)) ''/''"

definition body_of :: "s3 \<Rightarrow> string \<Rightarrow> string" where
  "body_of st key = (case map_of (objects st) key of None \<Rightarrow> [] | Some v \<Rightarrow> content v)"

definition archived :: "string \<Rightarrow> s3 \<Rightarrow> string list \<Rightarrow> (string \<times> string) list" where
  "archived pfx st keys =
     map (\<lambda>key. (safe_name pfx key, body_of st key))
         (filter (\<lambda>key. key \<noteq> pfx \<and> \<not> unsafe_path (safe_name pfx key)) keys)"

definition zip_fixture :: s3 where
  "zip_fixture = \<lparr>objects = [(''x'', \<lparr>content = ''data'', modified = 1\<rparr>),
                             (''../evil'', \<lparr>content = ''bad'', modified = 2\<rparr>),
                             (''a/../../b'', \<lparr>content = ''worse'', modified = 3\<rparr>)],
                  faults = [], max_keys = 1000, clock = 10\<rparr>"

text \<open>The destination of a key under a renamed folder.\<close>

definition renamed :: "string \<Rightarrow> string \<Rightarrow> string \<Rightarrow> string" where
  "renamed sourceKey destinationKey key = destinationKey @ drop (length sourceKey) key"

text \<open>
  The size a formatted string denotes: the decimal number before the blank, times the
  power of 1024 that the unit after the blank stands for. For the pair the loop of
  \<open>formatByteSize\<close> ends with, it is the number rounded to tenths times the power of
  1024 of the unit.
\<close>

definition denoted_size :: "rat \<times> nat \<Rightarrow> rat" where
  "denoted_size p = of_int (round_half_even (fst p * 10)) / 10 * 1024 ^ snd p"

fun index_of :: "'a \<Rightarrow> 'a list \<Rightarrow> nat option" where
  "index_of x [] = None"
| "index_of x (y # ys) = (if x = y then Some 0 else map_option Suc (index_of x ys))"

fun parse_digits :: "nat \<Rightarrow> string \<Rightarrow> nat option" where
  "parse_digits n [] = Some n"
| "parse_digits n (c # cs) =
     (case index_of c ''0123456789'' of
        None \<Rightarrow> None
      | Some d \<Rightarrow> parse_digits (10 * n + d) cs)"

definition parse_decimal :: "string \<Rightarrow> nat option" where
  "parse_decimal s = (if s = [] then None else parse_digits 0 s)"

definition size_denoted :: "string \<Rightarrow> rat option" where
  "size_denoted s =
     (let number = takeWhile (\<lambda>c. c \<noteq> CHR '' '') s;
          unit = drop 1 (dropWhile (\<lambda>c. c \<noteq> CHR '' '') s);
          whole = takeWhile (\<lambda>c. c \<noteq> CHR ''.'') number;
          frac = drop 1 (dropWhile (\<lambda>c. c \<noteq> CHR ''.'') number)
      in case parse_decimal whole of
           None \<Rightarrow> None
         | Some w \<Rightarrow>
             (case (if frac = [] then Some 0 else parse_decimal frac) of
                None \<Rightarrow> None
              | Some f \<Rightarrow>
                  (case index_of unit units of
                     None \<Rightarrow> None
                   | Some i \<Rightarrow> Some ((of_nat w + of_nat f / 10 ^ length frac) * 1024 ^ i))))"

text \<open>A listing of the given keys, and the listing of the folder \<open>p/\<close> of the examples.\<close>

definition keys_listing :: "string list \<Rightarrow> Object list" where
  "keys_listing keys =
     map (\<lambda>k. \<lparr>Object_Key = Some k, Object_Size = Some 0, Object_LastModified = Some 0\<rparr>) keys"

definition listing :: "Object list" where
  "listing = keys_listing [''p/'', ''p/a/x'', ''p/b'', ''p/a/y'', ''p/C/d/e'']"

section \<open>Properties\<close>

subsection \<open>Presigned URLs\<close>

lemma fifteen_minutes: "15 * time_Minute = (900000000000 :: 64 word)"
  by (simp add: time_Minute_def time_Second_def)

lemma fifteen_minutes_positive: "0 < sint (15 * time_Minute)"
  by (simp add: time_Minute_def time_Second_def)

text \<open>
  C10. When the requested expiry is zero or negative, \<open>PresignObject\<close> signs with an expiry
  of 15 minutes (900 seconds, a positive duration): a GET or PUT request reaches the signer
  with that expiry and fails only if the signer does. The HTTP handler takes the same
  15 minutes when the request body has no expiry.
\<close>

theorem PresignObject_default_expiry:
  "sint (ExpiresIn input) \<le> 0 \<Longrightarrow>
     PresignObject presignClient input
       = PresignObject presignClient (input\<lparr>ExpiresIn := 15 * time_Minute\<rparr>)
   \<and> (strings_ToUpper (PresignInput_Method input) = ''GET'' \<longrightarrow>
        PresignObject presignClient input
          = (case presignClient (PresignGetObject (Bucket input) (PresignInput_Key input)
                                   (15 * time_Minute)) of
               Inl err \<Rightarrow> Inl err
             | Inr url \<Rightarrow> Inr \<lparr>URL = url, PresignOutput_Method = ''GET''\<rparr>))
   \<and> (strings_ToUpper (PresignInput_Method input) = ''PUT'' \<longrightarrow>
        PresignObject presignClient input
          = (case presignClient (PresignPutObject (Bucket input) (PresignInput_Key input)
                                   (ContentType input) (15 * time_Minute)) of
               Inl err \<Rightarrow> Inl err
             | Inr url \<Rightarrow> Inr \<lparr>URL = url, PresignOutput_Method = ''PUT''\<rparr>))
   \<and> sint (15 * time_Minute :: Duration) = 900 * 1000000000
   \<and> Handler_PresignObject_expires None = 15 * time_Minute"
  by (simp add: PresignObject_def Let_def fifteen_minutes Handler_PresignObject_expires_def)

theorem PresignObject_default_expiry_witness:
  "sint (ExpiresIn \<lparr>Bucket = ''photos'', PresignInput_Key = ''a/x'', PresignInput_Method = ''get'',
                    ExpiresIn = 0, ContentType = None\<rparr>) \<le> 0
   \<and> PresignObject
        (\<lambda>r. case r of
                PresignGetObject b k d \<Rightarrow>
                  if d = 900000000000 then Inr ''signed'' else Inl (Error ''other expiry'')
              | PresignPutObject b k t d \<Rightarrow> Inl (Error ''put''))
        \<lparr>Bucket = ''photos'', PresignInput_Key = ''a/x'', PresignInput_Method = ''get'',
         ExpiresIn = 0, ContentType = None\<rparr>
       = Inr \<lparr>URL = ''signed'', PresignOutput_Method = ''GET''\<rparr>"
  using PresignObject_default_expiry
          [of "\<lparr>Bucket = ''photos'', PresignInput_Key = ''a/x'', PresignInput_Method = ''get'',
                ExpiresIn = 0, ContentType = None\<rparr>"
              "\<lambda>r. case r of
                PresignGetObject b k d \<Rightarrow>
                  if d = 900000000000 then Inr ''signed'' else Inl (Error ''other expiry'')
              | PresignPutObject b k t d \<Rightarrow> Inl (Error ''put'')"]
  by (simp add: PresignObject_def Let_def strings_ToUpper_def ascii_upper_def fifteen_minutes)

subsection \<open>Enumeration\<close>

lemma s3_call_no_faults: "faults st = [] \<Longrightarrow> s3_call st = (False, st)"
  by (simp add: s3_call_def)

lemma paged_backend_loop:
  "ListAllObjects_loop (paged_backend pages) token acc st
     = Some (Inr (acc @ concat (drop (token_start token) pages)), st)"
proof (induction "length pages - token_start token" arbitrary: token acc rule: less_induct)
  case less
  let ?i = "token_start token"
  show ?case
  proof (cases "Suc ?i < length pages")
    case True
    have step: "ListAllObjects_loop (paged_backend pages) token acc st
                  = ListAllObjects_loop (paged_backend pages) (Some (Suc ?i)) (acc @ pages ! ?i) st"
      using True
      by (subst ListAllObjects_loop.simps) (simp add: paged_backend_def token_start_def Let_def)
    have "length pages - token_start (Some (Suc ?i)) < length pages - ?i"
      using True by (simp add: token_start_def)
    from less[OF this, of "acc @ pages ! ?i"]
    have "ListAllObjects_loop (paged_backend pages) (Some (Suc ?i)) (acc @ pages ! ?i) st
            = Some (Inr ((acc @ pages ! ?i) @ concat (drop (Suc ?i) pages)), st)"
      by (simp add: token_start_def)
    moreover have "drop ?i pages = pages ! ?i # drop (Suc ?i) pages"
      using True by (simp add: Cons_nth_drop_Suc)
    ultimately show ?thesis using step by simp
  next
    case False
    have stop: "ListAllObjects_loop (paged_backend pages) token acc st
                  = Some (Inr (acc @ (if ?i < length pages then pages ! ?i else [])), st)"
      using False
      by (subst ListAllObjects_loop.simps) (simp add: paged_backend_def token_start_def Let_def)
    show ?thesis
    proof (cases "?i < length pages")
      case True
      with False have "Suc ?i = length pages" by simp
      then have "drop ?i pages = [pages ! ?i]"
        using True by (metis Cons_nth_drop_Suc drop_all le_refl)
      then show ?thesis using stop True by simp
    next
      case False
      then show ?thesis using stop by simp
    qed
  qed
qed

lemma store_loop:
  assumes "faults st = []" and "0 < max_keys st"
  shows "token_start token \<le> length (matching pfx st) \<Longrightarrow>
         ListAllObjects_loop (client_ListObjectsV2 pfx) token acc st
           = Some (Inr (acc @ map object_of (drop (token_start token) (matching pfx st))), st)"
proof (induction "length (matching pfx st) - token_start token" arbitrary: token acc rule: less_induct)
  case less
  let ?i = "token_start token"
  let ?M = "matching pfx st"
  let ?n = "max_keys st"
  show ?case
  proof (cases "?i + ?n < length ?M")
    case True
    have step: "ListAllObjects_loop (client_ListObjectsV2 pfx) token acc st
                  = ListAllObjects_loop (client_ListObjectsV2 pfx) (Some (?i + ?n))
                      (acc @ map object_of (take ?n (drop ?i ?M))) st"
      using True assms
      by (subst ListAllObjects_loop.simps)
         (simp add: client_ListObjectsV2_def s3_call_no_faults token_start_def Let_def)
    have m: "length ?M - token_start (Some (?i + ?n)) < length ?M - ?i"
      using True assms by (simp add: token_start_def)
    have le: "token_start (Some (?i + ?n)) \<le> length ?M"
      using True by (simp add: token_start_def)
    from less(1)[OF m le, of "acc @ map object_of (take ?n (drop ?i ?M))"]
    have "ListAllObjects_loop (client_ListObjectsV2 pfx) (Some (?i + ?n))
            (acc @ map object_of (take ?n (drop ?i ?M))) st
          = Some (Inr ((acc @ map object_of (take ?n (drop ?i ?M)))
                        @ map object_of (drop (?i + ?n) ?M)), st)"
      by (simp add: token_start_def)
    moreover have "take ?n (drop ?i ?M) @ drop (?i + ?n) ?M = drop ?i ?M"
      by (metis add.commute append_take_drop_id drop_drop)
    ultimately show ?thesis using step
      by (metis append.assoc map_append)
  next
    case False
    have "ListAllObjects_loop (client_ListObjectsV2 pfx) token acc st
            = Some (Inr (acc @ map object_of (take ?n (drop ?i ?M))), st)"
      using False assms
      by (subst ListAllObjects_loop.simps)
         (simp add: client_ListObjectsV2_def s3_call_no_faults token_start_def Let_def)
    moreover have "take ?n (drop ?i ?M) = drop ?i ?M"
      using False by simp
    ultimately show ?thesis by simp
  qed
qed

lemma ObjectStore_ListAllObjects_no_faults:
  "faults st = [] \<Longrightarrow> 0 < max_keys st \<Longrightarrow>
   ObjectStore_ListAllObjects pfx st = Some (Inr (map object_of (matching pfx st)), st)"
  using store_loop[of st None pfx "[]"]
  by (simp add: ObjectStore_ListAllObjects_def ListAllObjects_def token_start_def)

lemma matching_max_keys [simp]: "matching pfx (st\<lparr>max_keys := n\<rparr>) = matching pfx st"
  by (simp add: matching_def)

text \<open>
  C7. \<open>ListAllObjects\<close> returns the concatenation of the pages the backend gives, in
  order, whatever their sizes (a page may be empty and still carry a token); and on the
  store listed in pages of \<open>n\<close> keys it returns every object under the prefix, the same
  list for every page size \<open>n > 0\<close>, so the same number of keys for pages of 1 and of
  1000.
\<close>

theorem ListAllObjects_all_pages:
  "ListAllObjects (paged_backend pages) u = Some (Inr (concat pages), u)
   \<and> (0 < n \<and> faults st = [] \<longrightarrow>
        ObjectStore_ListAllObjects pfx (st\<lparr>max_keys := n\<rparr>)
          = Some (Inr (map object_of (matching pfx st)), st\<lparr>max_keys := n\<rparr>))"
  using paged_backend_loop[of pages None "[]" u]
        ObjectStore_ListAllObjects_no_faults[of "st\<lparr>max_keys := n\<rparr>" pfx]
  by (simp add: ListAllObjects_def token_start_def)

theorem ListAllObjects_all_pages_witness:
  "ObjectStore_ListAllObjects ''a/'' (fixture\<lparr>max_keys := 1\<rparr>)
     = Some (Inr (map object_of [(''a/'', \<lparr>content = '''', modified = 1\<rparr>),
                                 (''a/x'', \<lparr>content = ''hello'', modified = 2\<rparr>),
                                 (''a/y/z'', \<lparr>content = ''zz'', modified = 3\<rparr>)]),
             fixture\<lparr>max_keys := 1\<rparr>)
   \<and> ListAllObjects (paged_backend [[object_of (''k1'', \<lparr>content = ''1'', modified = 1\<rparr>)], [],
                                      [object_of (''k2'', \<lparr>content = ''2'', modified = 2\<rparr>)]]) ()
       = Some (Inr [object_of (''k1'', \<lparr>content = ''1'', modified = 1\<rparr>),
                    object_of (''k2'', \<lparr>content = ''2'', modified = 2\<rparr>)], ())"
  using ListAllObjects_all_pages
          [of "[[object_of (''k1'', \<lparr>content = ''1'', modified = 1\<rparr>)], [],
                [object_of (''k2'', \<lparr>content = ''2'', modified = 2\<rparr>)]]" "()" 1 fixture "''a/''"]
  by (simp add: fixture_def matching_def strings_HasPrefix_def)

subsection \<open>Archive\<close>

lemma s3_call_shape:
  "s3_call st = (b, st') \<Longrightarrow>
   objects st' = objects st \<and> max_keys st' = max_keys st \<and> clock st' = clock st
   \<and> faults st' = tl (faults st)"
  by (auto simp: s3_call_def split: list.splits)

lemma matching_cong: "objects st' = objects st \<Longrightarrow> matching pfx st' = matching pfx st"
  by (simp add: matching_def)

lemma fault_step:
  "s3_call st = (True, st') \<Longrightarrow>
   ListAllObjects_loop (client_ListObjectsV2 pfx) token acc st
     = Some (Inl (Error ''RequestError''), st')"
  by (subst ListAllObjects_loop.simps) (simp add: client_ListObjectsV2_def)

lemma more_step:
  "s3_call st = (False, st') \<Longrightarrow>
   token_start token + max_keys st' < length (matching pfx st') \<Longrightarrow>
   ListAllObjects_loop (client_ListObjectsV2 pfx) token acc st
     = ListAllObjects_loop (client_ListObjectsV2 pfx) (Some (token_start token + max_keys st'))
         (acc @ map object_of (take (max_keys st') (drop (token_start token) (matching pfx st'))))
         st'"
  by (subst ListAllObjects_loop.simps)
     (simp add: client_ListObjectsV2_def token_start_def Let_def)

lemma stop_step:
  "s3_call st = (False, st') \<Longrightarrow>
   \<not> token_start token + max_keys st' < length (matching pfx st') \<Longrightarrow>
   ListAllObjects_loop (client_ListObjectsV2 pfx) token acc st
     = Some (Inr (acc @ map object_of (take (max_keys st')
                                         (drop (token_start token) (matching pfx st')))), st')"
  by (subst ListAllObjects_loop.simps)
     (simp add: client_ListObjectsV2_def token_start_def Let_def)

lemma store_loop_total:
  "0 < max_keys st \<Longrightarrow>
   \<exists>r st'. ListAllObjects_loop (client_ListObjectsV2 pfx) token acc st = Some (r, st')
          \<and> objects st' = objects st \<and> max_keys st' = max_keys st \<and> clock st' = clock st"
proof (induction "length (matching pfx st) - token_start token" arbitrary: token acc st rule: less_induct)
  case less
  obtain b st1 where c: "s3_call st = (b, st1)" by (cases "s3_call st")
  from s3_call_shape[OF c]
  have o: "objects st1 = objects st" and k: "max_keys st1 = max_keys st"
    and t: "clock st1 = clock st" by simp_all
  have M: "matching pfx st1 = matching pfx st" using o by (rule matching_cong)
  show ?case
  proof (cases b)
    case True
    with c have "s3_call st = (True, st1)" by simp
    from fault_step[OF this] o k t show ?thesis by blast
  next
    case False
    with c have c': "s3_call st = (False, st1)" by simp
    show ?thesis
    proof (cases "token_start token + max_keys st1 < length (matching pfx st1)")
      case True
      note step = more_step[OF c' True, of acc]
      have m: "length (matching pfx st1) - token_start (Some (token_start token + max_keys st1))
                 < length (matching pfx st) - token_start token"
        using True less.prems M k by (simp add: token_start_def)
      have p: "0 < max_keys st1" using k less.prems by simp
      from less.hyps[OF m p]
      obtain r st2 where
        "ListAllObjects_loop (client_ListObjectsV2 pfx) (Some (token_start token + max_keys st1))
           (acc @ map object_of (take (max_keys st1) (drop (token_start token) (matching pfx st1))))
           st1 = Some (r, st2)"
        "objects st2 = objects st1" "max_keys st2 = max_keys st1" "clock st2 = clock st1"
        by blast
      with step o k t show ?thesis by simp
    next
      case False
      from stop_step[OF c' False] o k t show ?thesis by blast
    qed
  qed
qed

lemma ObjectStore_ListAllObjects_total:
  "0 < max_keys st \<Longrightarrow>
   \<exists>r st'. ObjectStore_ListAllObjects pfx st = Some (r, st')
          \<and> objects st' = objects st \<and> max_keys st' = max_keys st \<and> clock st' = clock st"
  unfolding ObjectStore_ListAllObjects_def ListAllObjects_def
  by (rule store_loop_total)

lemma pipe_call_entries:
  "pipe_call zw = (f, zw') \<Longrightarrow> entries zw' = entries zw"
  by (auto simp: pipe_call_def split: list.splits)

lemma zip_Create_names:
  "zip_Create name zw = (b, zw') \<Longrightarrow>
   map fst (entries zw') = map fst (entries zw) @ (if b then [name] else [])"
proof -
  assume a: "zip_Create name zw = (b, zw')"
  obtain f zw1 where p: "pipe_call zw = (f, zw1)" by (cases "pipe_call zw")
  then have e: "entries zw1 = entries zw" by (rule pipe_call_entries)
  show ?thesis using a p e by (cases f) (auto simp: zip_Create_def)
qed

lemma io_Copy_names:
  assumes ne: "entries zw \<noteq> []"
  shows "map fst (entries (snd (io_Copy body zw))) = map fst (entries zw)"
proof -
  obtain f zw' where p: "pipe_call zw = (f, zw')" by (cases "pipe_call zw")
  then have e: "entries zw' = entries zw" by (rule pipe_call_entries)
  have "entries zw = butlast (entries zw) @ [last (entries zw)]"
    using ne by simp
  then have "map fst (entries zw) = map fst (butlast (entries zw)) @ [fst (last (entries zw))]"
    by (metis list.simps(8,9) map_append)
  then show ?thesis
    using p e by (cases f) (simp_all add: io_Copy_def)
qed

lemma ZipFolder_entry_skip:
  "Object_Key obj = None \<or> Object_Key obj = Some pfx \<Longrightarrow> ZipFolder_entry pfx acc obj = acc"
  by (auto simp: ZipFolder_entry_def)

lemma ZipFolder_entry_get_failed:
  "Object_Key obj = Some key \<Longrightarrow> key \<noteq> pfx \<Longrightarrow>
   ObjectStore_GetObject key (fst acc) = (Inl err, st') \<Longrightarrow>
   ZipFolder_entry pfx acc obj = (st', snd acc)"
  by (simp add: ZipFolder_entry_def)

lemma ZipFolder_entry_unsafe:
  "Object_Key obj = Some key \<Longrightarrow> key \<noteq> pfx \<Longrightarrow>
   ObjectStore_GetObject key (fst acc) = (Inr body, st') \<Longrightarrow>
   unsafe_path (safe_name pfx key) \<Longrightarrow>
   ZipFolder_entry pfx acc obj = (st', snd acc)"
  by (simp add: ZipFolder_entry_def safe_name_def)

lemma ZipFolder_entry_create_failed:
  "Object_Key obj = Some key \<Longrightarrow> key \<noteq> pfx \<Longrightarrow>
   ObjectStore_GetObject key (fst acc) = (Inr body, st') \<Longrightarrow>
   \<not> unsafe_path (safe_name pfx key) \<Longrightarrow>
   zip_Create (safe_name pfx key) (snd acc) = (False, zw') \<Longrightarrow>
   ZipFolder_entry pfx acc obj = (st', zw')"
  by (simp add: ZipFolder_entry_def safe_name_def)

lemma ZipFolder_entry_written:
  "Object_Key obj = Some key \<Longrightarrow> key \<noteq> pfx \<Longrightarrow>
   ObjectStore_GetObject key (fst acc) = (Inr body, st') \<Longrightarrow>
   \<not> unsafe_path (safe_name pfx key) \<Longrightarrow>
   zip_Create (safe_name pfx key) (snd acc) = (True, zw') \<Longrightarrow>
   ZipFolder_entry pfx acc obj = (st', snd (io_Copy body zw'))"
  by (simp add: ZipFolder_entry_def safe_name_def)

lemma ZipFolder_entry_names:
  "set (map fst (entries (snd (ZipFolder_entry pfx acc obj))))
     \<subseteq> set (map fst (entries (snd acc))) \<union> {n. \<not> unsafe_path n}"
proof (cases "Object_Key obj = None \<or> Object_Key obj = Some pfx")
  case True
  then show ?thesis by (simp add: ZipFolder_entry_skip)
next
  case False
  then obtain key where key: "Object_Key obj = Some key" "key \<noteq> pfx" by auto
  obtain r st' where g: "ObjectStore_GetObject key (fst acc) = (r, st')"
    by (cases "ObjectStore_GetObject key (fst acc)")
  show ?thesis
  proof (cases r)
    case (Inl err)
    with g key show ?thesis by (simp add: ZipFolder_entry_get_failed)
  next
    case (Inr body)
    with g have g': "ObjectStore_GetObject key (fst acc) = (Inr body, st')" by simp
    show ?thesis
    proof (cases "unsafe_path (safe_name pfx key)")
      case True
      with g' key show ?thesis by (simp add: ZipFolder_entry_unsafe)
    next
      case safe: False
      obtain b zw' where c: "zip_Create (safe_name pfx key) (snd acc) = (b, zw')"
        by (cases "zip_Create (safe_name pfx key) (snd acc)")
      note n = zip_Create_names[OF c]
      show ?thesis
      proof (cases b)
        case True
        then have ne: "entries zw' \<noteq> []" using n by auto
        have "ZipFolder_entry pfx acc obj = (st', snd (io_Copy body zw'))"
          using key g' safe c True by (simp add: ZipFolder_entry_written)
        then show ?thesis
          using io_Copy_names[OF ne, of body] n True safe by auto
      next
        case False
        have "ZipFolder_entry pfx acc obj = (st', zw')"
          using key g' safe c False by (simp add: ZipFolder_entry_create_failed)
        then show ?thesis using n False by auto
      qed
    qed
  qed
qed

lemma ZipFolder_fold_names:
  "set (map fst (entries (snd (foldl (ZipFolder_entry pfx) acc objs))))
     \<subseteq> set (map fst (entries (snd acc))) \<union> {n. \<not> unsafe_path n}"
proof (induction objs arbitrary: acc)
  case Nil
  show ?case by simp
next
  case (Cons obj objs)
  have "set (map fst (entries (snd (foldl (ZipFolder_entry pfx) (ZipFolder_entry pfx acc obj) objs))))
          \<subseteq> set (map fst (entries (snd (ZipFolder_entry pfx acc obj)))) \<union> {n. \<not> unsafe_path n}"
    by (rule Cons)
  also have "\<dots> \<subseteq> set (map fst (entries (snd acc))) \<union> {n. \<not> unsafe_path n}"
    using ZipFolder_entry_names[of pfx acc obj] by blast
  finally show ?case by simp
qed

lemma unsafe_path_iff:
  "\<not> unsafe_path n \<Longrightarrow>
   n \<noteq> '''' \<and> n \<noteq> ''.'' \<and> n \<noteq> ''..'' \<and> \<not> strings_HasPrefix n ''..''
   \<and> \<not> strings_Contains n ''../''"
  by (auto simp: unsafe_path_def strings_HasPrefix_def)

lemma GetObject_no_faults:
  "faults st = [] \<Longrightarrow> key \<in> fst ` set (objects st) \<Longrightarrow>
   ObjectStore_GetObject key st = (Inr (body_of st key), st)"
proof -
  assume f: "faults st = []" and k: "key \<in> fst ` set (objects st)"
  from k obtain v where "map_of (objects st) key = Some v"
    by (metis domD dom_map_of_conv_image_fst)
  then show ?thesis
    using f by (simp add: ObjectStore_GetObject_def client_GetObject_def s3_call_no_faults body_of_def)
qed

lemma zip_write_no_faults:
  "pipe_faults zw = [] \<Longrightarrow>
   zip_Create name zw = (True, zw\<lparr>entries := entries zw @ [(name, [])]\<rparr>)
   \<and> snd (io_Copy body (zw\<lparr>entries := entries zw @ [(name, [])]\<rparr>))
       = zw\<lparr>entries := entries zw @ [(name, body)]\<rparr>"
  by (simp add: zip_Create_def io_Copy_def pipe_call_def)

lemma ZipFolder_entry_no_faults:
  assumes "faults st = []" and "pipe_faults zw = []" and "fst kv \<in> fst ` set (objects st)"
  shows "ZipFolder_entry pfx (st, zw) (object_of kv)
           = (st, zw\<lparr>entries := entries zw @ archived pfx st [fst kv]\<rparr>)"
proof (cases "fst kv = pfx")
  case True
  then have "ZipFolder_entry pfx (st, zw) (object_of kv) = (st, zw)"
    by (intro ZipFolder_entry_skip) (simp add: object_of_def)
  then show ?thesis using True by (simp add: archived_def)
next
  case False
  have key: "Object_Key (object_of kv) = Some (fst kv)" by (simp add: object_of_def)
  have g: "ObjectStore_GetObject (fst kv) (fst (st, zw)) = (Inr (body_of st (fst kv)), st)"
    using assms by (simp add: GetObject_no_faults)
  show ?thesis
  proof (cases "unsafe_path (safe_name pfx (fst kv))")
    case True
    from ZipFolder_entry_unsafe[OF key False g True]
    show ?thesis using True by (simp add: archived_def)
  next
    case safe: False
    from zip_write_no_faults[OF assms(2), of "safe_name pfx (fst kv)" "body_of st (fst kv)"]
    have c: "zip_Create (safe_name pfx (fst kv)) (snd (st, zw))
               = (True, zw\<lparr>entries := entries zw @ [(safe_name pfx (fst kv), [])]\<rparr>)"
      and w: "snd (io_Copy (body_of st (fst kv))
                     (zw\<lparr>entries := entries zw @ [(safe_name pfx (fst kv), [])]\<rparr>))
               = zw\<lparr>entries := entries zw @ [(safe_name pfx (fst kv), body_of st (fst kv))]\<rparr>"
      by simp_all
    from ZipFolder_entry_written[OF key False g safe c] w
    show ?thesis using False safe by (simp add: archived_def)
  qed
qed

lemma archived_append:
  "archived pfx st (ks @ ks') = archived pfx st ks @ archived pfx st ks'"
  by (simp add: archived_def)

lemma ZipFolder_fold_no_faults:
  assumes "faults st = []"
  shows "pipe_faults zw = [] \<Longrightarrow> fst ` set kvs \<subseteq> fst ` set (objects st) \<Longrightarrow>
         foldl (ZipFolder_entry pfx) (st, zw) (map object_of kvs)
           = (st, zw\<lparr>entries := entries zw @ archived pfx st (map fst kvs)\<rparr>)"
proof (induction kvs arbitrary: zw)
  case Nil
  show ?case by (simp add: archived_def)
next
  case (Cons kv kvs)
  let ?zw = "zw\<lparr>entries := entries zw @ archived pfx st [fst kv]\<rparr>"
  have e: "ZipFolder_entry pfx (st, zw) (object_of kv) = (st, ?zw)"
    using assms Cons.prems by (intro ZipFolder_entry_no_faults) auto
  have "foldl (ZipFolder_entry pfx) (st, ?zw) (map object_of kvs)
          = (st, ?zw\<lparr>entries := entries ?zw @ archived pfx st (map fst kvs)\<rparr>)"
    using Cons.prems by (intro Cons.IH) auto
  then show ?case
    using e archived_append[of pfx st "[fst kv]" "map fst kvs"] by simp
qed

lemma matching_subset: "fst ` set (matching pfx st) \<subseteq> fst ` set (objects st)"
  by (auto simp: matching_def)

lemma ZipFolder_no_faults:
  assumes "faults st = []" and "0 < max_keys st"
  shows "BucketService_ZipFolder pfx [] st
           = Some (Inr (\<lparr>entries = archived pfx st (map fst (matching pfx st)), pipe_faults = []\<rparr>,
                        zip_filename pfx), st)"
proof -
  have l: "ObjectStore_ListAllObjects pfx st = Some (Inr (map object_of (matching pfx st)), st)"
    using assms by (rule ObjectStore_ListAllObjects_no_faults)
  have "foldl (ZipFolder_entry pfx) (st, \<lparr>entries = [], pipe_faults = []\<rparr>)
          (map object_of (matching pfx st))
        = (st, \<lparr>entries = [], pipe_faults = []\<rparr>
                 \<lparr>entries := entries \<lparr>entries = [], pipe_faults = []\<rparr>
                              @ archived pfx st (map fst (matching pfx st))\<rparr>)"
    using assms(1) by (intro ZipFolder_fold_no_faults) (simp_all add: matching_subset)
  then show ?thesis using l by (simp add: BucketService_ZipFolder_def)
qed

lemma ZipFolder_total_safe:
  assumes "0 < max_keys st"
  shows "\<exists>r st'. BucketService_ZipFolder pfx pipe st = Some (r, st')
           \<and> (\<forall>zw filename. r = Inr (zw, filename) \<longrightarrow>
                 (\<forall>e \<in> set (entries zw). \<not> unsafe_path (fst e)))"
proof -
  from ObjectStore_ListAllObjects_total[OF assms, of pfx]
  obtain r st1 where l: "ObjectStore_ListAllObjects pfx st = Some (r, st1)" by blast
  show ?thesis
  proof (cases r)
    case (Inl err)
    with l show ?thesis by (simp add: BucketService_ZipFolder_def)
  next
    case (Inr objs)
    obtain st2 zw where f:
      "foldl (ZipFolder_entry pfx) (st1, \<lparr>entries = [], pipe_faults = pipe\<rparr>) objs = (st2, zw)"
      by (cases "foldl (ZipFolder_entry pfx) (st1, \<lparr>entries = [], pipe_faults = pipe\<rparr>) objs")
    from ZipFolder_fold_names[of pfx "(st1, \<lparr>entries = [], pipe_faults = pipe\<rparr>)" objs] f
    have "\<forall>e \<in> set (entries zw). \<not> unsafe_path (fst e)" by auto
    then show ?thesis using l Inr f by (simp add: BucketService_ZipFolder_def)
  qed
qed

text \<open>
  C8. Whatever fails on the way (store calls, writes into the pipe), \<open>ZipFolder\<close> returns,
  and no entry of the archive has a name that is empty, \<open>.\<close>, \<open>..\<close> or that begins with
  \<open>..\<close>. When nothing fails, the archive holds exactly the objects under the prefix,
  other than the prefix's own marker, whose sanitized path passes the check, in the order
  of the listing, each under its sanitized path and with its body: an unsafe object is
  left out and the ones after it are still written.
\<close>

theorem ZipFolder_zip_slip:
  "0 < max_keys st \<Longrightarrow>
     (\<exists>r st'. BucketService_ZipFolder pfx pipe st = Some (r, st')
        \<and> (\<forall>zw filename. r = Inr (zw, filename) \<longrightarrow>
              (\<forall>e \<in> set (entries zw).
                 fst e \<noteq> '''' \<and> fst e \<noteq> ''.'' \<and> fst e \<noteq> ''..''
                 \<and> \<not> strings_HasPrefix (fst e) ''..'')))
   \<and> (faults st = [] \<longrightarrow>
        BucketService_ZipFolder pfx [] st
          = Some (Inr (\<lparr>entries = archived pfx st (map fst (matching pfx st)),
                         pipe_faults = []\<rparr>, zip_filename pfx), st))"
proof (intro conjI impI)
  assume m: "0 < max_keys st"
  from ZipFolder_total_safe[OF m, of pfx pipe] unsafe_path_iff
  show "\<exists>r st'. BucketService_ZipFolder pfx pipe st = Some (r, st')
        \<and> (\<forall>zw filename. r = Inr (zw, filename) \<longrightarrow>
              (\<forall>e \<in> set (entries zw).
                 fst e \<noteq> '''' \<and> fst e \<noteq> ''.'' \<and> fst e \<noteq> ''..''
                 \<and> \<not> strings_HasPrefix (fst e) ''..''))"
    by blast
next
  assume "0 < max_keys st" "faults st = []"
  then show "BucketService_ZipFolder pfx [] st
          = Some (Inr (\<lparr>entries = archived pfx st (map fst (matching pfx st)),
                         pipe_faults = []\<rparr>, zip_filename pfx), st)"
    by (simp add: ZipFolder_no_faults)
qed

lemma path_Clean_examples:
  "path_Clean ''x'' = ''x''" "path_Clean ''../evil'' = ''../evil''"
  "path_Clean ''a/../../b'' = ''../b''"
  by (simp_all add: path_Clean_def Clean_step_def)

theorem ZipFolder_zip_slip_witness:
  "0 < max_keys zip_fixture
   \<and> BucketService_ZipFolder '''' [] zip_fixture
       = Some (Inr (\<lparr>entries = [(''x'', ''data'')], pipe_faults = []\<rparr>, ''download.zip''),
               zip_fixture)"
  using ZipFolder_zip_slip[of zip_fixture "''''" "[]"]
  by (simp add: zip_fixture_def matching_def archived_def safe_name_def body_of_def
        strings_HasPrefix_def strings_TrimPrefix_def strings_TrimSuffix_def
        strings_HasSuffix_def strings_Contains_def unsafe_path_def zip_filename_def
        path_Clean_examples)

subsection \<open>Folder operations\<close>

lemma map_of_replace:
  "map_of (map (\<lambda>kv. if fst kv = k then (k, v) else kv) kvs) k'
     = (if k' = k then (if k \<in> fst ` set kvs then Some v else None) else map_of kvs k')"
  by (induction kvs) (simp, force)

lemma map_of_put_stored: "map_of (put_stored k v kvs) = (map_of kvs)(k \<mapsto> v)"
proof (cases "k \<in> fst ` set kvs")
  case False
  then have "map_of kvs k = None" by (simp add: map_of_eq_None_iff)
  then show ?thesis using False
    by (auto simp: put_stored_def fun_eq_iff map_add_def split: option.splits)
next
  case True
  then show ?thesis by (auto simp: put_stored_def fun_eq_iff map_of_replace)
qed

lemma CopyObject_present:
  "faults st = [] \<Longrightarrow> map_of (objects st) sourceKey = Some v \<Longrightarrow>
   ObjectStore_CopyObject sourceKey destinationKey st
     = (None, st\<lparr>objects := put_stored destinationKey
                                 \<lparr>content = content v, modified = clock st\<rparr> (objects st)\<rparr>)"
  by (simp add: ObjectStore_CopyObject_def client_CopyObject_def s3_call_no_faults)

lemma CopyObject_absent:
  "faults st = [] \<Longrightarrow> map_of (objects st) sourceKey = None \<Longrightarrow>
   ObjectStore_CopyObject sourceKey destinationKey st = (Some (Error ''NoSuchKey''), st)"
  by (simp add: ObjectStore_CopyObject_def client_CopyObject_def s3_call_no_faults)

lemma CopyObject_keeps:
  "ObjectStore_CopyObject sourceKey destinationKey st = (err, st') \<Longrightarrow>
   dom (map_of (objects st)) \<subseteq> dom (map_of (objects st'))
   \<and> max_keys st' = max_keys st \<and> clock st' = clock st"
proof -
  assume a: "ObjectStore_CopyObject sourceKey destinationKey st = (err, st')"
  obtain b st1 where c: "s3_call st = (b, st1)" by (cases "s3_call st")
  note s = s3_call_shape[OF c]
  show ?thesis
  proof (cases "b \<or> map_of (objects st1) sourceKey = None")
    case True
    then have "st' = st1" using a c
      by (cases b) (auto simp: ObjectStore_CopyObject_def client_CopyObject_def)
    then show ?thesis using s by simp
  next
    case False
    then obtain v where v: "map_of (objects st1) sourceKey = Some v" and nb: "\<not> b" by auto
    then have "st' = st1\<lparr>objects := put_stored destinationKey
                                  \<lparr>content = content v, modified = clock st1\<rparr> (objects st1)\<rparr>"
      using a c by (simp add: ObjectStore_CopyObject_def client_CopyObject_def)
    then show ?thesis using s by (auto simp: map_of_put_stored)
  qed
qed

lemma DeleteObjects_single:
  "faults st = [] \<Longrightarrow>
   ObjectStore_DeleteObjects [key] st
     = (None, st\<lparr>objects := filter (\<lambda>kv. fst kv \<noteq> key) (objects st)\<rparr>)"
  by (simp add: ObjectStore_DeleteObjects_def DeleteObjects_loop.simps client_DeleteObjects_def
        s3_call_no_faults s3_call_def)

lemma map_of_filter_key:
  "map_of (filter (\<lambda>kv. fst kv \<noteq> key) kvs) = (map_of kvs)(key := None)"
  by (induction kvs) (auto simp: fun_eq_iff)

lemma filter_absent_key:
  "map_of kvs key = None \<Longrightarrow> filter (\<lambda>kv. fst kv \<noteq> key) kvs = kvs"
  by (induction kvs) (auto split: if_splits)

lemma HasPrefix_self: "strings_HasPrefix k k"
  by (simp add: strings_HasPrefix_def)

lemma matching_empty_absent:
  "matching key st = [] \<Longrightarrow> map_of (objects st) key = None"
proof -
  assume "matching key st = []"
  then have "\<forall>kv \<in> set (objects st). \<not> strings_HasPrefix (fst kv) key"
    by (simp add: matching_def filter_empty_conv)
  then have "key \<notin> fst ` set (objects st)" using HasPrefix_self by force
  then show ?thesis by (simp add: map_of_eq_None_iff)
qed

text \<open>
  C2. \<open>CopyObject\<close> copies one object, the one stored under the source key, to the
  destination key, also when the source key ends in a slash: the keys under a folder are
  not copied. Whatever happens, no key is removed and \<open>Success\<close> tells whether an error
  is returned; when no call fails in transit, the store afterwards is the store before
  with the destination key holding the source's body, and a source key that holds no
  object makes the copy fail with the store as it was.
\<close>

theorem CopyObject_single_key:
  "(\<forall>r st'. BucketService_CopyObject sourceKey destinationKey st = (r, st') \<longrightarrow>
      dom (map_of (objects st)) \<subseteq> dom (map_of (objects st')) \<and> (Success (fst r) \<longleftrightarrow> snd r = None))
   \<and> (faults st = [] \<longrightarrow>
        (case map_of (objects st) sourceKey of
           Some v \<Rightarrow>
             (\<exists>st'. BucketService_CopyObject sourceKey destinationKey st
                      = ((\<lparr>Success = True, Message = ''Object copied successfully''\<rparr>, None), st')
                  \<and> map_of (objects st')
                      = (map_of (objects st))
                          (destinationKey \<mapsto> \<lparr>content = content v, modified = clock st\<rparr>))
         | None \<Rightarrow>
             BucketService_CopyObject sourceKey destinationKey st
               = ((\<lparr>Success = False, Message = ''failed to copy object: NoSuchKey''\<rparr>,
                   Some (Error ''NoSuchKey'')), st)))"
proof (intro conjI allI impI)
  fix r st'
  assume a: "BucketService_CopyObject sourceKey destinationKey st = (r, st')"
  obtain err st1 where c: "ObjectStore_CopyObject sourceKey destinationKey st = (err, st1)"
    by (cases "ObjectStore_CopyObject sourceKey destinationKey st")
  from a c have "st' = st1" by (cases err) (auto simp: BucketService_CopyObject_def)
  with CopyObject_keeps[OF c]
  show "dom (map_of (objects st)) \<subseteq> dom (map_of (objects st'))" by simp
  from a c show "Success (fst r) \<longleftrightarrow> snd r = None"
    by (cases err) (auto simp: BucketService_CopyObject_def)
next
  assume f: "faults st = []"
  show "case map_of (objects st) sourceKey of
           Some v \<Rightarrow>
             (\<exists>st'. BucketService_CopyObject sourceKey destinationKey st
                      = ((\<lparr>Success = True, Message = ''Object copied successfully''\<rparr>, None), st')
                  \<and> map_of (objects st')
                      = (map_of (objects st))
                          (destinationKey \<mapsto> \<lparr>content = content v, modified = clock st\<rparr>))
         | None \<Rightarrow>
             BucketService_CopyObject sourceKey destinationKey st
               = ((\<lparr>Success = False, Message = ''failed to copy object: NoSuchKey''\<rparr>,
                   Some (Error ''NoSuchKey'')), st)"
  proof (cases "map_of (objects st) sourceKey")
    case None
    with f show ?thesis by (simp add: BucketService_CopyObject_def CopyObject_absent)
  next
    case (Some v)
    with f show ?thesis
      by (simp add: BucketService_CopyObject_def CopyObject_present map_of_put_stored)
  qed
qed

theorem CopyObject_single_key_witness:
  "faults fixture = []
   \<and> fst (BucketService_CopyObject ''a/x'' ''b/x'' fixture)
       = (\<lparr>Success = True, Message = ''Object copied successfully''\<rparr>, None)
   \<and> map_of (objects (snd (BucketService_CopyObject ''a/x'' ''b/x'' fixture))) ''b/x''
       = Some \<lparr>content = ''hello'', modified = 10\<rparr>
   \<and> map_of (objects (snd (BucketService_CopyObject ''a/x'' ''b/x'' fixture))) ''a/x''
       = Some \<lparr>content = ''hello'', modified = 2\<rparr>"
  using CopyObject_single_key[of "''a/x''" "''b/x''" fixture]
  by (auto simp: fixture_def)

theorem CopyObject_folder_counterexample:
  "strings_HasSuffix ''a/'' ''/''
   \<and> map fst (matching ''a/'' fixture) = [''a/'', ''a/x'', ''a/y/z'']
   \<and> fst (BucketService_CopyObject ''a/'' ''b/'' fixture)
       = (\<lparr>Success = True, Message = ''Object copied successfully''\<rparr>, None)
   \<and> map fst (objects (snd (BucketService_CopyObject ''a/'' ''b/'' fixture)))
       = [''a/'', ''a/x'', ''c'', ''a/y/z'', ''b/'']"
  by (simp add: fixture_def matching_def strings_HasPrefix_def strings_HasSuffix_def
        BucketService_CopyObject_def ObjectStore_CopyObject_def client_CopyObject_def
        s3_call_def put_stored_def)

lemma record_objects_same [simp]: "st\<lparr>objects := objects st\<rparr> = st"
  by simp

text \<open>
  C4. For a folder key under which the store holds nothing, and no call failing in
  transit: \<open>DeleteObjects\<close> succeeds, reports the key as deleted and none as failed, and
  leaves the store as it was; \<open>RenameObject\<close> and \<open>CopyObject\<close> fail, with the store's
  error for the absent marker object, and leave the store as it was.
\<close>

theorem empty_folder_operations:
  "faults st = [] \<Longrightarrow> 0 < max_keys st \<Longrightarrow> strings_HasSuffix key ''/'' \<Longrightarrow>
   matching key st = [] \<Longrightarrow>
     BucketService_DeleteObjects [key] st
       = Some ((\<lparr>Deleted = [key], Failed = []\<rparr>, None), st)
   \<and> BucketService_RenameObject key destinationKey st
       = Some ((\<lparr>Success = False, Message = ''failed to copy folder marker: NoSuchKey''\<rparr>,
                Some (Error ''NoSuchKey'')), st)
   \<and> BucketService_CopyObject key destinationKey st
       = ((\<lparr>Success = False, Message = ''failed to copy object: NoSuchKey''\<rparr>,
           Some (Error ''NoSuchKey'')), st)"
proof (intro conjI)
  assume f: "faults st = []" and m: "0 < max_keys st" and s: "strings_HasSuffix key ''/''"
    and e: "matching key st = []"
  have l: "ObjectStore_ListAllObjects key st = Some (Inr [], st)"
    using ObjectStore_ListAllObjects_no_faults[OF f m, of key] e by simp
  have a: "map_of (objects st) key = None" using e by (rule matching_empty_absent)
  have d: "ObjectStore_DeleteObjects [key] st = (None, st)"
    using DeleteObjects_single[OF f, of key] filter_absent_key[OF a] by simp
  show "BucketService_DeleteObjects [key] st
          = Some ((\<lparr>Deleted = [key], Failed = []\<rparr>, None), st)"
    using s l d by (simp add: BucketService_DeleteObjects_def map_filter_simps)
  show "BucketService_RenameObject key destinationKey st
       = Some ((\<lparr>Success = False, Message = ''failed to copy folder marker: NoSuchKey''\<rparr>,
                Some (Error ''NoSuchKey'')), st)"
    using s l CopyObject_absent[OF f a, of destinationKey]
    by (simp add: BucketService_RenameObject_def RenameObject_folder_def)
  show "BucketService_CopyObject key destinationKey st
       = ((\<lparr>Success = False, Message = ''failed to copy object: NoSuchKey''\<rparr>,
           Some (Error ''NoSuchKey'')), st)"
    using CopyObject_absent[OF f a, of destinationKey]
    by (simp add: BucketService_CopyObject_def)
qed

theorem empty_folder_operations_witness:
  "faults fixture = [] \<and> 0 < max_keys fixture \<and> strings_HasSuffix ''q/'' ''/''
   \<and> matching ''q/'' fixture = []
   \<and> BucketService_DeleteObjects [''q/''] fixture
       = Some ((\<lparr>Deleted = [''q/''], Failed = []\<rparr>, None), fixture)"
  using empty_folder_operations[of fixture "''q/''" "''r/''"]
  by (simp add: fixture_def matching_def strings_HasPrefix_def strings_HasSuffix_def)

theorem rename_absent_folder_counterexample:
  "strings_HasSuffix ''q/'' ''/'' \<and> matching ''q/'' fixture = []
   \<and> BucketService_RenameObject ''q/'' ''r/'' fixture
       = Some ((\<lparr>Success = False, Message = ''failed to copy folder marker: NoSuchKey''\<rparr>,
                Some (Error ''NoSuchKey'')), fixture)
   \<and> BucketService_CopyObject ''q/'' ''r/'' fixture
       = ((\<lparr>Success = False, Message = ''failed to copy object: NoSuchKey''\<rparr>,
           Some (Error ''NoSuchKey'')), fixture)"
  by (simp add: fixture_def matching_def strings_HasPrefix_def strings_HasSuffix_def
        BucketService_RenameObject_def RenameObject_folder_def BucketService_CopyObject_def
        ObjectStore_ListAllObjects_def ListAllObjects_def ListAllObjects_loop.simps
        client_ListObjectsV2_def ObjectStore_CopyObject_def client_CopyObject_def s3_call_def)
























lemma HasPrefix_append: "strings_HasPrefix s p \<longleftrightarrow> (\<exists>t. s = p @ t)"
  unfolding strings_HasPrefix_def
  by (metis append_eq_conv_conj append_take_drop_id length_append le_add1)

lemma Index_prefix: "strings_HasPrefix s p \<Longrightarrow> strings_Index s p = Some 0"
  by (cases s) (auto simp: strings_HasPrefix_def)

lemma Replace1_prefix:
  "strings_HasPrefix key sourceKey \<Longrightarrow>
   strings_Replace1 key sourceKey destinationKey = renamed sourceKey destinationKey key"
  by (simp add: strings_Replace1_def Index_prefix renamed_def)

lemma renamed_source:
  "strings_HasPrefix key sourceKey \<Longrightarrow>
   sourceKey @ drop (length destinationKey) (renamed sourceKey destinationKey key) = key"
  by (auto simp: renamed_def HasPrefix_append)

lemma renamed_prefix: "strings_HasPrefix (renamed sourceKey destinationKey key) destinationKey"
  by (simp add: renamed_def HasPrefix_append)

lemma incomparable_prefixes:
  "strings_HasPrefix s p \<Longrightarrow> strings_HasPrefix s q \<Longrightarrow>
   strings_HasPrefix p q \<or> strings_HasPrefix q p"
  unfolding HasPrefix_append
  by (metis append_eq_append_conv2)

lemma body_of_Some: "map_of (objects st) key = Some v \<Longrightarrow> body_of st key = content v"
  by (simp add: body_of_def)

lemma RenameObject_copies_ok:
  assumes "faults st = []"
    and "\<forall>k \<in> set keys. map_of (objects st) k \<noteq> None \<and> strings_HasPrefix k sourceKey"
    and "\<forall>k \<in> set keys. renamed sourceKey destinationKey k \<notin> set keys"
    and "map Object_Key objs = map Some keys"
  shows "\<exists>st'. RenameObject_copies sourceKey destinationKey objs st = (None, st')
             \<and> faults st' = [] \<and> max_keys st' = max_keys st \<and> clock st' = clock st
             \<and> (\<forall>key. map_of (objects st') key
                    = (if key \<in> renamed sourceKey destinationKey ` set keys
                       then Some \<lparr>content = body_of st (sourceKey @ drop (length destinationKey) key),
                                  modified = clock st\<rparr>
                       else map_of (objects st) key))"
  using assms
proof (induction keys arbitrary: st objs)
  case Nil
  then show ?case by simp
next
  case (Cons k keys)
  let ?r = "renamed sourceKey destinationKey"
  from Cons.prems(4) obtain obj objs' where objs: "objs = obj # objs'"
    and ok: "Object_Key obj = Some k" and oks: "map Object_Key objs' = map Some keys"
    by (cases objs) auto
  from Cons.prems(2) obtain v where v: "map_of (objects st) k = Some v"
    and pk: "strings_HasPrefix k sourceKey" by auto
  let ?st1 = "st\<lparr>objects := put_stored (?r k) \<lparr>content = content v, modified = clock st\<rparr>
                                  (objects st)\<rparr>"
  have c: "ObjectStore_CopyObject k (strings_Replace1 k sourceKey destinationKey) st = (None, ?st1)"
    using CopyObject_present[OF Cons.prems(1) v] Replace1_prefix[OF pk] by simp
  have m1: "map_of (objects ?st1) = (map_of (objects st))(?r k \<mapsto> \<lparr>content = content v, modified = clock st\<rparr>)"
    by (simp add: map_of_put_stored)
  have p1: "faults ?st1 = []" using Cons.prems(1) by simp
  have p2: "\<forall>k' \<in> set keys. map_of (objects ?st1) k' \<noteq> None \<and> strings_HasPrefix k' sourceKey"
    using Cons.prems(2) m1 by auto
  have p3: "\<forall>k' \<in> set keys. ?r k' \<notin> set keys"
    using Cons.prems(3) by auto
  from Cons.IH[OF p1 p2 p3 oks]
  obtain st' where
    r: "RenameObject_copies sourceKey destinationKey objs' ?st1 = (None, st')"
    and s: "faults st' = []" "max_keys st' = max_keys st" "clock st' = clock st"
    and look: "\<And>key. map_of (objects st') key
                 = (if key \<in> ?r ` set keys
                    then Some \<lparr>content = body_of ?st1 (sourceKey @ drop (length destinationKey) key),
                               modified = clock ?st1\<rparr>
                    else map_of (objects ?st1) key)"
    by auto
  have rk: "?r k \<notin> set (k # keys)" using Cons.prems(3) by simp
  have same: "body_of ?st1 k' = body_of st k'" if "k' \<in> set keys" for k'
  proof -
    have "k' \<noteq> ?r k" using rk that by auto
    then show ?thesis using m1 by (simp add: body_of_def)
  qed
  have "map_of (objects st') key
          = (if key \<in> ?r ` set (k # keys)
             then Some \<lparr>content = body_of st (sourceKey @ drop (length destinationKey) key),
                        modified = clock st\<rparr>
             else map_of (objects st) key)" for key
  proof (cases "key \<in> ?r ` set keys")
    case True
    then obtain k' where k': "k' \<in> set keys" "key = ?r k'" by auto
    then have "strings_HasPrefix k' sourceKey" using Cons.prems(2) by simp
    then have "sourceKey @ drop (length destinationKey) key = k'"
      using k' by (simp add: renamed_source)
    then show ?thesis using look[of key] True same[OF k'(1)] by simp
  next
    case False
    show ?thesis
    proof (cases "key = ?r k")
      case True
      then have "sourceKey @ drop (length destinationKey) key = k"
        using pk by (simp add: renamed_source)
      then show ?thesis using look[of key] False True m1 body_of_Some[OF v] by simp
    next
      case nk: False
      then show ?thesis using look[of key] False m1 by simp
    qed
  qed
  then show ?case using c r s objs ok by simp
qed

lemma matching_keys:
  "set (map fst (matching pfx st)) = {k. map_of (objects st) k \<noteq> None \<and> strings_HasPrefix k pfx}"
proof -
  have "k \<in> fst ` set (objects st) \<longleftrightarrow> map_of (objects st) k \<noteq> None" for k
    by (simp add: map_of_eq_None_iff)
  then show ?thesis by (force simp: matching_def)
qed

lemma object_of_keys: "map Object_Key (map object_of kvs) = map Some (map fst kvs)"
  by (simp add: object_of_def)

lemma renamed_image:
  assumes "set keys = {k. map_of (objects st) k \<noteq> None \<and> strings_HasPrefix k sourceKey}"
  shows "key \<in> renamed sourceKey destinationKey ` set keys
           \<longleftrightarrow> strings_HasPrefix key destinationKey
               \<and> map_of (objects st) (sourceKey @ drop (length destinationKey) key) \<noteq> None"
proof
  assume "key \<in> renamed sourceKey destinationKey ` set keys"
  then obtain k where k: "k \<in> set keys" "key = renamed sourceKey destinationKey k" by auto
  then have "strings_HasPrefix k sourceKey" "map_of (objects st) k \<noteq> None"
    using assms by auto
  then show "strings_HasPrefix key destinationKey
               \<and> map_of (objects st) (sourceKey @ drop (length destinationKey) key) \<noteq> None"
    using k by (simp add: renamed_source renamed_prefix)
next
  assume a: "strings_HasPrefix key destinationKey
               \<and> map_of (objects st) (sourceKey @ drop (length destinationKey) key) \<noteq> None"
  let ?k = "sourceKey @ drop (length destinationKey) key"
  have "?k \<in> set keys" using a assms by (simp add: HasPrefix_append)
  moreover have "renamed sourceKey destinationKey ?k = key"
    using a by (auto simp: renamed_def HasPrefix_append)
  ultimately show "key \<in> renamed sourceKey destinationKey ` set keys" by force
qed

lemma RenameObject_folder_store:
  assumes f: "faults st = []" and m: "0 < max_keys st"
    and sfx: "strings_HasSuffix sourceKey ''/''"
    and marker: "map_of (objects st) sourceKey = Some mk"
    and nd: "\<not> strings_HasPrefix destinationKey sourceKey"
    and ns: "\<not> strings_HasPrefix sourceKey destinationKey"
  shows "\<exists>st'. BucketService_RenameObject sourceKey destinationKey st
                 = Some ((\<lparr>Success = True, Message = ''Object renamed successfully''\<rparr>, None), st')
           \<and> (\<forall>key. map_of (objects st') key
                  = (if key = sourceKey then None
                     else if strings_HasPrefix key destinationKey
                             \<and> map_of (objects st) (sourceKey @ drop (length destinationKey) key) \<noteq> None
                     then Some \<lparr>content = body_of st (sourceKey @ drop (length destinationKey) key),
                                modified = clock st\<rparr>
                     else map_of (objects st) key))"
proof -
  let ?keys = "map fst (matching sourceKey st)"
  let ?r = "renamed sourceKey destinationKey"
  have l: "ObjectStore_ListAllObjects sourceKey st
             = Some (Inr (map object_of (matching sourceKey st)), st)"
    using f m by (rule ObjectStore_ListAllObjects_no_faults)
  have ks: "set ?keys = {k. map_of (objects st) k \<noteq> None \<and> strings_HasPrefix k sourceKey}"
    by (rule matching_keys)
  have a2: "\<forall>k \<in> set ?keys. map_of (objects st) k \<noteq> None \<and> strings_HasPrefix k sourceKey"
    using ks by simp
  have a3: "\<forall>k \<in> set ?keys. ?r k \<notin> set ?keys"
  proof
    fix k assume "k \<in> set ?keys"
    show "?r k \<notin> set ?keys"
    proof
      assume "?r k \<in> set ?keys"
      then have "strings_HasPrefix (?r k) sourceKey" using ks by simp
      with renamed_prefix[of sourceKey destinationKey k] nd ns
      show False using incomparable_prefixes by blast
    qed
  qed
  from RenameObject_copies_ok[OF f a2 a3 object_of_keys]
  obtain st1 where c: "RenameObject_copies sourceKey destinationKey
                         (map object_of (matching sourceKey st)) st = (None, st1)"
    and s1: "faults st1 = []" "max_keys st1 = max_keys st" "clock st1 = clock st"
    and look1: "\<And>key. map_of (objects st1) key
                  = (if key \<in> ?r ` set ?keys
                     then Some \<lparr>content = body_of st (sourceKey @ drop (length destinationKey) key),
                                modified = clock st\<rparr>
                     else map_of (objects st) key)"
    by blast
  note img = renamed_image[OF ks, of _ destinationKey]
  have "sourceKey \<notin> ?r ` set ?keys" using img[of sourceKey] ns by simp
  then have m1: "map_of (objects st1) sourceKey = Some mk" using look1[of sourceKey] marker by simp
  let ?st2 = "st1\<lparr>objects := put_stored destinationKey \<lparr>content = content mk, modified = clock st1\<rparr>
                                   (objects st1)\<rparr>"
  have c2: "ObjectStore_CopyObject sourceKey destinationKey st1 = (None, ?st2)"
    using s1(1) m1 by (rule CopyObject_present)
  let ?st3 = "?st2\<lparr>objects := filter (\<lambda>kv. fst kv \<noteq> sourceKey) (objects ?st2)\<rparr>"
  have d: "ObjectStore_DeleteObjects [sourceKey] ?st2 = (None, ?st3)"
    using s1(1) by (intro DeleteObjects_single) simp
  have res: "BucketService_RenameObject sourceKey destinationKey st
               = Some ((\<lparr>Success = True, Message = ''Object renamed successfully''\<rparr>, None), ?st3)"
    using sfx l c c2 d by (simp add: BucketService_RenameObject_def RenameObject_folder_def)
  have look2: "map_of (objects ?st3) key
                = (if key = sourceKey then None
                   else if key = destinationKey
                   then Some \<lparr>content = content mk, modified = clock st\<rparr>
                   else map_of (objects st1) key)" for key
    using s1 by (simp add: map_of_filter_key map_of_put_stored)
  have dst: "strings_HasPrefix destinationKey destinationKey
             \<and> sourceKey @ drop (length destinationKey) destinationKey = sourceKey"
    by (simp add: HasPrefix_self)
  have "map_of (objects ?st3) key
          = (if key = sourceKey then None
             else if strings_HasPrefix key destinationKey
                     \<and> map_of (objects st) (sourceKey @ drop (length destinationKey) key) \<noteq> None
             then Some \<lparr>content = body_of st (sourceKey @ drop (length destinationKey) key),
                        modified = clock st\<rparr>
             else map_of (objects st) key)" for key
  proof (cases "key = destinationKey")
    case True
    then show ?thesis
      using look2[of key] dst marker ns body_of_Some[OF marker] by auto
  next
    case False
    then show ?thesis using look2[of key] look1[of key] img[of key] by simp
  qed
  with res show ?thesis by blast
qed

text \<open>
  C1. Renaming a folder whose marker object exists to a destination that neither lies
  under the source nor contains it, with no call failing in transit, succeeds with
  \<open>Success = true\<close> and the message "Object renamed successfully"; outside the source
  folder the store afterwards is the store before, except that every destination key
  whose counterpart under the source existed now holds that counterpart's body. For the
  bucket with \<open>a/\<close>, \<open>a/x\<close>, \<open>a/y/z\<close> these are \<open>b/\<close>, \<open>b/x\<close> and \<open>b/y/z\<close>.
\<close>

theorem RenameObject_folder_copies:
  "faults st = [] \<Longrightarrow> 0 < max_keys st \<Longrightarrow> strings_HasSuffix sourceKey ''/'' \<Longrightarrow>
   map_of (objects st) sourceKey \<noteq> None \<Longrightarrow>
   \<not> strings_HasPrefix destinationKey sourceKey \<Longrightarrow>
   \<not> strings_HasPrefix sourceKey destinationKey \<Longrightarrow>
   \<exists>st'. BucketService_RenameObject sourceKey destinationKey st
           = Some ((\<lparr>Success = True, Message = ''Object renamed successfully''\<rparr>, None), st')
     \<and> (\<forall>key. \<not> strings_HasPrefix key sourceKey \<longrightarrow>
           map_of (objects st') key
             = (if strings_HasPrefix key destinationKey
                   \<and> map_of (objects st) (sourceKey @ drop (length destinationKey) key) \<noteq> None
                then Some \<lparr>content = body_of st (sourceKey @ drop (length destinationKey) key),
                           modified = clock st\<rparr>
                else map_of (objects st) key))"
proof -
  assume f: "faults st = []" and m: "0 < max_keys st"
    and sfx: "strings_HasSuffix sourceKey ''/''"
    and mk: "map_of (objects st) sourceKey \<noteq> None"
    and nd: "\<not> strings_HasPrefix destinationKey sourceKey"
    and ns: "\<not> strings_HasPrefix sourceKey destinationKey"
  from mk obtain v where v: "map_of (objects st) sourceKey = Some v" by auto
  from RenameObject_folder_store[OF f m sfx v nd ns]
  obtain st' where
    r: "BucketService_RenameObject sourceKey destinationKey st
          = Some ((\<lparr>Success = True, Message = ''Object renamed successfully''\<rparr>, None), st')"
    and look: "\<And>key. map_of (objects st') key
                  = (if key = sourceKey then None
                     else if strings_HasPrefix key destinationKey
                             \<and> map_of (objects st) (sourceKey @ drop (length destinationKey) key) \<noteq> None
                     then Some \<lparr>content = body_of st (sourceKey @ drop (length destinationKey) key),
                                modified = clock st\<rparr>
                     else map_of (objects st) key)"
    by blast
  have "map_of (objects st') key
             = (if strings_HasPrefix key destinationKey
                   \<and> map_of (objects st) (sourceKey @ drop (length destinationKey) key) \<noteq> None
                then Some \<lparr>content = body_of st (sourceKey @ drop (length destinationKey) key),
                           modified = clock st\<rparr>
                else map_of (objects st) key)"
    if "\<not> strings_HasPrefix key sourceKey" for key
  proof -
    have "key \<noteq> sourceKey" using that HasPrefix_self by auto
    then show ?thesis using look[of key] by simp
  qed
  with r show ?thesis by blast
qed

theorem RenameObject_folder_copies_witness:
  "faults fixture = [] \<and> 0 < max_keys fixture \<and> strings_HasSuffix ''a/'' ''/''
   \<and> map_of (objects fixture) ''a/'' \<noteq> None
   \<and> \<not> strings_HasPrefix ''b/'' ''a/'' \<and> \<not> strings_HasPrefix ''a/'' ''b/''
   \<and> (\<exists>st'. BucketService_RenameObject ''a/'' ''b/'' fixture
              = Some ((\<lparr>Success = True, Message = ''Object renamed successfully''\<rparr>, None), st')
        \<and> map_of (objects st') ''b/'' = Some \<lparr>content = '''', modified = 10\<rparr>
        \<and> map_of (objects st') ''b/x'' = Some \<lparr>content = ''hello'', modified = 10\<rparr>
        \<and> map_of (objects st') ''b/y/z'' = Some \<lparr>content = ''zz'', modified = 10\<rparr>
        \<and> map_of (objects st') ''b/y'' = None
        \<and> map_of (objects st') ''c'' = Some \<lparr>content = ''other'', modified = 2\<rparr>)"
proof -
  have h: "faults fixture = []" "0 < max_keys fixture" "strings_HasSuffix ''a/'' ''/''"
    "map_of (objects fixture) ''a/'' \<noteq> None"
    "\<not> strings_HasPrefix ''b/'' ''a/''" "\<not> strings_HasPrefix ''a/'' ''b/''"
    by (simp_all add: fixture_def strings_HasSuffix_def strings_HasPrefix_def)
  from RenameObject_folder_copies[OF h]
  obtain st' where
    r: "BucketService_RenameObject ''a/'' ''b/'' fixture
          = Some ((\<lparr>Success = True, Message = ''Object renamed successfully''\<rparr>, None), st')"
    and look: "\<And>key. \<not> strings_HasPrefix key ''a/'' \<Longrightarrow>
                 map_of (objects st') key
                   = (if strings_HasPrefix key ''b/''
                         \<and> map_of (objects fixture) (''a/'' @ drop (length ''b/'') key) \<noteq> None
                      then Some \<lparr>content = body_of fixture (''a/'' @ drop (length ''b/'') key),
                                 modified = clock fixture\<rparr>
                      else map_of (objects fixture) key)"
    by blast
  have "map_of (objects st') ''b/'' = Some \<lparr>content = '''', modified = 10\<rparr>"
    "map_of (objects st') ''b/x'' = Some \<lparr>content = ''hello'', modified = 10\<rparr>"
    "map_of (objects st') ''b/y/z'' = Some \<lparr>content = ''zz'', modified = 10\<rparr>"
    "map_of (objects st') ''b/y'' = None"
    "map_of (objects st') ''c'' = Some \<lparr>content = ''other'', modified = 2\<rparr>"
    using look[of "''b/''"] look[of "''b/x''"] look[of "''b/y/z''"] look[of "''b/y''"] look[of "''c''"]
    by (simp_all add: fixture_def strings_HasPrefix_def body_of_def)
  with h r show ?thesis by blast
qed

theorem RenameObject_folder_counterexample:
  "map_option (\<lambda>r. (fst r, map fst (objects (snd r))))
     (BucketService_RenameObject ''a/'' ''b/'' fixture)
   = Some ((\<lparr>Success = True, Message = ''Object renamed successfully''\<rparr>, None),
           [''a/x'', ''c'', ''a/y/z'', ''b/'', ''b/x'', ''b/y/z''])"
  by code_simp

subsection \<open>Byte sizes\<close>

lemma round_half_even_bounds:
  "\<lfloor>x\<rfloor> \<le> round_half_even x \<and> round_half_even x \<le> \<lfloor>x\<rfloor> + 1"
  by (simp add: round_half_even_def Let_def)

lemma round_half_even_of_int [simp]: "round_half_even (of_int k) = k"
  by (simp add: round_half_even_def Let_def)

lemma round_half_even_mono:
  assumes "x \<le> y"
  shows "round_half_even x \<le> round_half_even y"
proof (cases "\<lfloor>x\<rfloor> = \<lfloor>y\<rfloor>")
  case False
  then have "\<lfloor>x\<rfloor> < \<lfloor>y\<rfloor>" using floor_mono[OF assms] by simp
  then show ?thesis
    using round_half_even_bounds[of x] round_half_even_bounds[of y] by linarith
next
  case True
  then have "x - of_int \<lfloor>x\<rfloor> \<le> y - of_int \<lfloor>y\<rfloor>" using assms by simp
  then show ?thesis using True
    by (auto simp: round_half_even_def Let_def)
qed

lemma round_half_even_ge: "of_int k \<le> x \<Longrightarrow> k \<le> round_half_even x"
  using round_half_even_mono[of "of_int k" x] by simp

lemma round_half_even_le: "x \<le> of_int k \<Longrightarrow> round_half_even x \<le> k"
  using round_half_even_mono[of x "of_int k"] by simp

lemma bit_length_pos: "0 < n \<Longrightarrow> bit_length n = Suc (bit_length (n div 2))"
  by (subst bit_length.simps) simp

lemma bit_length_nonpos: "n \<le> 0 \<Longrightarrow> bit_length n = 0"
  by (subst bit_length.simps) simp

lemma bit_length_bounds:
  "0 < n \<Longrightarrow> 2 ^ (bit_length n - 1) \<le> n \<and> n < 2 ^ bit_length n"
proof (induction n rule: bit_length.induct)
  case (1 n)
  show ?case
  proof (cases "n div 2 > 0")
    case False
    then have "n = 1" using 1(2) by linarith
    then show ?thesis by (simp add: bit_length_pos bit_length_nonpos)
  next
    case True
    from 1(1)[OF _ True] 1(2)
    have ih: "2 ^ (bit_length (n div 2) - 1) \<le> n div 2" "n div 2 < 2 ^ bit_length (n div 2)"
      by auto
    have b: "bit_length (n div 2) > 0" using True by (simp add: bit_length_pos)
    have "(2::int) ^ (bit_length n - 1) = 2 * 2 ^ (bit_length (n div 2) - 1)"
      using 1(2) b by (simp add: bit_length_pos flip: power_Suc)
    moreover have "(2::int) ^ bit_length n = 2 * 2 ^ bit_length (n div 2)"
      using 1(2) by (simp add: bit_length_pos)
    ultimately show ?thesis using ih by linarith
  qed
qed

lemma bit_length_mono: "0 < a \<Longrightarrow> a \<le> b \<Longrightarrow> bit_length a \<le> bit_length b"
proof (rule ccontr)
  assume a: "0 < a" "a \<le> b" and "\<not> bit_length a \<le> bit_length b"
  then have "bit_length b \<le> bit_length a - 1" by simp
  then have "(2::int) ^ bit_length b \<le> 2 ^ (bit_length a - 1)"
    by (simp add: power_increasing)
  with bit_length_bounds[of a] bit_length_bounds[of b] a show False by linarith
qed

lemma float64_small:
  "bit_length \<bar>n\<bar> \<le> 53 \<Longrightarrow> float64_of_int64 n = of_int n"
  by (simp add: float64_of_int64_def Let_def)

lemma round_half_even_1 [simp]: "round_half_even 1 = 1"
  using round_half_even_of_int[of 1] by simp

lemma float64_of_int64_mono:
  assumes a: "0 < a" and ab: "a \<le> b"
  shows "float64_of_int64 a \<le> float64_of_int64 b"
proof -
  let ?ea = "bit_length a - 53" and ?eb = "bit_length b - 53"
  have b: "0 < b" using a ab by simp
  have fa: "float64_of_int64 a = of_int (round_half_even (of_int a / 2 ^ ?ea)) * 2 ^ ?ea"
    using a by (simp add: float64_of_int64_def Let_def)
  have fb: "float64_of_int64 b = of_int (round_half_even (of_int b / 2 ^ ?eb)) * 2 ^ ?eb"
    using b by (simp add: float64_of_int64_def Let_def)
  have le: "?ea \<le> ?eb" using bit_length_mono[OF a ab] by simp
  show ?thesis
  proof (cases "?ea = ?eb")
    case True
    have "(of_int a :: rat) / 2 ^ ?eb \<le> of_int b / 2 ^ ?eb"
      using ab by (simp add: divide_right_mono)
    then have "round_half_even (of_int a / 2 ^ ?eb) \<le> round_half_even (of_int b / 2 ^ ?eb)"
      by (rule round_half_even_mono)
    then have "(of_int (round_half_even (of_int a / 2 ^ ?eb)) :: rat) * 2 ^ ?eb
                 \<le> of_int (round_half_even (of_int b / 2 ^ ?eb)) * 2 ^ ?eb"
      by (simp add: mult_right_mono)
    then show ?thesis using fa fb True by simp
  next
    case False
    then have lt: "?ea < ?eb" using le by simp
    then have bl: "bit_length b = 53 + ?eb" by simp
    have "a < 2 ^ bit_length a" using bit_length_bounds[OF a] by simp
    also have "(2::int) ^ bit_length a \<le> 2 ^ (53 + ?ea)"
      by (rule power_increasing) simp_all
    finally have "a \<le> 2 ^ (53 + ?ea)" by simp
    then have "(of_int a :: rat) \<le> of_int (2 ^ (53 + ?ea))"
      by (simp only: of_int_le_iff)
    then have "(of_int a :: rat) / 2 ^ ?ea \<le> of_int (2 ^ 53)"
      by (simp add: pos_divide_le_eq power_add)
    then have "round_half_even (of_int a / 2 ^ ?ea) \<le> 2 ^ 53"
      by (rule round_half_even_le)
    then have "(of_int (round_half_even (of_int a / 2 ^ ?ea)) :: rat) \<le> of_int (2 ^ 53)"
      by (simp only: of_int_le_iff)
    then have ua: "float64_of_int64 a \<le> 2 ^ 53 * 2 ^ ?ea"
      using fa by (simp add: mult_right_mono)
    have "(2::int) ^ (52 + ?eb) \<le> b" using bit_length_bounds[OF b] bl by simp
    then have "(of_int (2 ^ (52 + ?eb)) :: rat) \<le> of_int b"
      by (simp only: of_int_le_iff)
    then have "(of_int (2 ^ 52) :: rat) \<le> of_int b / 2 ^ ?eb"
      by (simp add: pos_le_divide_eq power_add)
    then have "2 ^ 52 \<le> round_half_even (of_int b / 2 ^ ?eb)"
      by (rule round_half_even_ge)
    then have "(of_int (2 ^ 52) :: rat) \<le> of_int (round_half_even (of_int b / 2 ^ ?eb))"
      by (simp only: of_int_le_iff)
    then have lb: "2 ^ 52 * 2 ^ ?eb \<le> float64_of_int64 b"
      using fb by (simp add: mult_right_mono)
    have "(2::rat) ^ 53 * 2 ^ ?ea = 2 ^ 52 * 2 ^ Suc ?ea" by simp
    also have "\<dots> \<le> 2 ^ 52 * 2 ^ ?eb"
      using lt by (intro mult_left_mono power_increasing) simp_all
    finally show ?thesis using ua lb by linarith
  qed
qed

lemma float64_of_int64_ge_1:
  assumes "0 < a"
  shows "1 \<le> float64_of_int64 a"
proof -
  have "float64_of_int64 1 = 1"
    by (simp add: float64_of_int64_def bit_length.simps Let_def)
  then show ?thesis using float64_of_int64_mono[of 1 a] assms by simp
qed

lemma units_last: "length units = 5"
  by (simp add: units_def)

lemma loop_more:
  "1024 \<le> f \<Longrightarrow> i < 4 \<Longrightarrow> formatByteSize_loop f i = formatByteSize_loop (f / 1024) (i + 1)"
  by (subst formatByteSize_loop.simps) (simp add: units_last)

lemma loop_stop:
  "\<not> (1024 \<le> f \<and> i < 4) \<Longrightarrow> formatByteSize_loop f i = (f, i)"
  by (subst formatByteSize_loop.simps) (auto simp: units_last)

lemma denoted_size_stop_lower: "1 \<le> f \<Longrightarrow> 1024 ^ i \<le> denoted_size (f, i)"
proof -
  assume "1 \<le> f"
  then have "of_int 10 \<le> f * 10" by simp
  then have "10 \<le> round_half_even (f * 10)" by (rule round_half_even_ge)
  then have "(of_int 10 :: rat) \<le> of_int (round_half_even (f * 10))"
    by (simp only: of_int_le_iff)
  then have "1 \<le> (of_int (round_half_even (f * 10)) :: rat) / 10" by simp
  then have "1 * 1024 ^ i \<le> (of_int (round_half_even (f * 10)) :: rat) / 10 * 1024 ^ i"
    by (intro mult_right_mono) simp_all
  then show ?thesis by (simp add: denoted_size_def)
qed

lemma denoted_size_stop_upper: "f < 1024 \<Longrightarrow> denoted_size (f, i) \<le> 1024 ^ Suc i"
proof -
  assume "f < 1024"
  then have "f * 10 \<le> of_int 10240" by simp
  then have "round_half_even (f * 10) \<le> 10240" by (rule round_half_even_le)
  then have "(of_int (round_half_even (f * 10)) :: rat) \<le> of_int 10240"
    by (simp only: of_int_le_iff)
  then have "(of_int (round_half_even (f * 10)) :: rat) / 10 \<le> 1024" by simp
  then have "(of_int (round_half_even (f * 10)) :: rat) / 10 * 1024 ^ i \<le> 1024 * 1024 ^ i"
    by (intro mult_right_mono) simp_all
  then show ?thesis by (simp add: denoted_size_def)
qed

lemma denoted_size_stop_mono: "f \<le> g \<Longrightarrow> denoted_size (f, i) \<le> denoted_size (g, i)"
proof -
  assume "f \<le> g"
  then have "f * 10 \<le> g * 10" by simp
  then have "round_half_even (f * 10) \<le> round_half_even (g * 10)" by (rule round_half_even_mono)
  then have "(of_int (round_half_even (f * 10)) :: rat) \<le> of_int (round_half_even (g * 10))"
    by (simp only: of_int_le_iff)
  then have "(of_int (round_half_even (f * 10)) :: rat) / 10 \<le> of_int (round_half_even (g * 10)) / 10"
    by (simp add: divide_right_mono)
  then have "(of_int (round_half_even (f * 10)) :: rat) / 10 * 1024 ^ i
               \<le> of_int (round_half_even (g * 10)) / 10 * 1024 ^ i"
    by (intro mult_right_mono) simp_all
  then show ?thesis by (simp add: denoted_size_def)
qed

lemma loop_lower:
  "1 \<le> f \<Longrightarrow> 1024 ^ i \<le> denoted_size (formatByteSize_loop f i)"
proof (induction f i rule: formatByteSize_loop.induct)
  case (1 f i)
  show ?case
  proof (cases "1024 \<le> f \<and> i < 4")
    case True
    then have "1 \<le> f / 1024" by simp
    from 1(1)[OF _ this] True
    have "1024 ^ (i + 1) \<le> denoted_size (formatByteSize_loop (f / 1024) (i + 1))"
      by (simp add: units_last)
    moreover have "(1024::rat) ^ i \<le> 1024 ^ (i + 1)" by simp
    ultimately have "1024 ^ i \<le> denoted_size (formatByteSize_loop (f / 1024) (i + 1))"
      by (rule order_trans[rotated])
    then show ?thesis using True loop_more[of f i] by simp
  next
    case False
    then show ?thesis using denoted_size_stop_lower[OF 1(2), of i] by (simp add: loop_stop)
  qed
qed

lemma loop_index: "i \<le> 4 \<Longrightarrow> snd (formatByteSize_loop f i) \<le> 4"
proof (induction f i rule: formatByteSize_loop.induct)
  case (1 f i)
  show ?case
  proof (cases "1024 \<le> f \<and> i < 4")
    case True
    from 1(1) True have "snd (formatByteSize_loop (f / 1024) (i + 1)) \<le> 4"
      by (simp add: units_last)
    then show ?thesis using True loop_more[of f i] by simp
  next
    case False
    then show ?thesis using 1(2) by (simp add: loop_stop)
  qed
qed

lemma loop_ge_1: "1 \<le> f \<Longrightarrow> 1 \<le> fst (formatByteSize_loop f i)"
proof (induction f i rule: formatByteSize_loop.induct)
  case (1 f i)
  show ?case
  proof (cases "1024 \<le> f \<and> i < 4")
    case True
    then have "1 \<le> f / 1024" by simp
    from 1(1)[OF _ this] True have "1 \<le> fst (formatByteSize_loop (f / 1024) (i + 1))"
      by (simp add: units_last)
    then show ?thesis using True loop_more[of f i] by simp
  next
    case False
    then show ?thesis using 1(2) by (simp add: loop_stop)
  qed
qed

lemma loop_mono:
  "1 \<le> f \<Longrightarrow> f \<le> g \<Longrightarrow>
   denoted_size (formatByteSize_loop f i) \<le> denoted_size (formatByteSize_loop g i)"
proof (induction f i arbitrary: g rule: formatByteSize_loop.induct)
  case (1 f i)
  show ?case
  proof (cases "i < 4")
    case False
    then show ?thesis using denoted_size_stop_mono[OF 1(3), of i] by (simp add: loop_stop)
  next
    case i: True
    show ?thesis
    proof (cases "1024 \<le> f")
      case True
      then have g: "1024 \<le> g" using 1(3) by simp
      have "1 \<le> f / 1024" "f / 1024 \<le> g / 1024" using True 1(3) by simp_all
      from 1(1)[OF _ this] True i
      have "denoted_size (formatByteSize_loop (f / 1024) (i + 1))
              \<le> denoted_size (formatByteSize_loop (g / 1024) (i + 1))"
        by (simp add: units_last)
      then show ?thesis using True g i by (simp add: loop_more)
    next
      case False
      then have sf: "formatByteSize_loop f i = (f, i)" by (simp add: loop_stop)
      show ?thesis
      proof (cases "1024 \<le> g")
        case False
        then show ?thesis using sf denoted_size_stop_mono[OF 1(3), of i] by (simp add: loop_stop)
      next
        case True
        then have "1 \<le> g / 1024" by simp
        from loop_lower[OF this, of "i + 1"]
        have "1024 ^ Suc i \<le> denoted_size (formatByteSize_loop g i)"
          using True i by (simp add: loop_more)
        moreover have "denoted_size (f, i) \<le> 1024 ^ Suc i"
          using False by (intro denoted_size_stop_upper) simp
        ultimately show ?thesis using sf by simp
      qed
    qed
  qed
qed

lemma formatByteSize_loop_mono:
  assumes "0 < a" "a \<le> b"
  shows "denoted_size (formatByteSize_loop (float64_of_int64 a) 0)
           \<le> denoted_size (formatByteSize_loop (float64_of_int64 b) 0)"
  using assms by (intro loop_mono float64_of_int64_ge_1 float64_of_int64_mono)

lemma digit_cases: "d < 10 \<Longrightarrow> d \<in> {0, 1, 2, 3, 4, 5, 6, 7, 8, 9::nat}"
  by auto

lemma index_of_digit: "d < 10 \<Longrightarrow> index_of (digit d) ''0123456789'' = Some d"
  using digit_cases[of d] by (auto simp: digit_def)

lemma digit_not_separator: "d < 10 \<Longrightarrow> digit d \<noteq> CHR ''.'' \<and> digit d \<noteq> CHR '' ''"
  using digit_cases[of d] by (auto simp: digit_def)

lemma decimal_small: "n < 10 \<Longrightarrow> decimal n = [digit n]"
  by (subst decimal.simps) simp

lemma decimal_large: "\<not> n < 10 \<Longrightarrow> decimal n = decimal (n div 10) @ [digit (n mod 10)]"
  by (subst decimal.simps) simp

lemma decimal_chars:
  "decimal n \<noteq> [] \<and> (\<forall>c \<in> set (decimal n). c \<noteq> CHR ''.'' \<and> c \<noteq> CHR '' '')"
proof (induction n rule: decimal.induct)
  case (1 n)
  show ?case
  proof (cases "n < 10")
    case True
    then show ?thesis using digit_not_separator[of n] by (simp add: decimal_small)
  next
    case False
    have "n mod 10 < 10" by simp
    from digit_not_separator[OF this] 1[OF False] False show ?thesis
      by (simp add: decimal_large)
  qed
qed

lemma parse_digits_append:
  "parse_digits n (xs @ ys)
     = (case parse_digits n xs of None \<Rightarrow> None | Some m \<Rightarrow> parse_digits m ys)"
  by (induction xs arbitrary: n) (auto split: option.splits)

lemma parse_digits_decimal: "parse_digits 0 (decimal n) = Some n"
proof (induction n rule: decimal.induct)
  case (1 n)
  show ?case
  proof (cases "n < 10")
    case True
    then show ?thesis using index_of_digit[OF True]
      by (simp add: decimal_small del: index_of.simps)
  next
    case False
    have d: "n mod 10 < 10" by simp
    from 1[OF False] False show ?thesis
      by (simp add: decimal_large parse_digits_append index_of_digit[OF d] del: index_of.simps)
  qed
qed

lemma parse_decimal_decimal: "parse_decimal (decimal n) = Some n"
  using decimal_chars[of n] by (simp add: parse_decimal_def parse_digits_decimal)

lemma takeWhile_sep:
  "\<forall>c \<in> set xs. P c \<Longrightarrow> \<not> P y \<Longrightarrow>
   takeWhile P (xs @ y # ys) = xs \<and> dropWhile P (xs @ y # ys) = y # ys"
  by (simp add: takeWhile_tail dropWhile_append3)

lemma index_of_unit: "i \<le> 4 \<Longrightarrow> index_of (units ! i) units = Some i"
proof -
  assume "i \<le> 4"
  then have "i \<in> {0, 1, 2, 3, 4}" by auto
  then show ?thesis by (auto simp: units_def)
qed

lemma size_denoted_rendered:
  assumes "fr < 10" and "i \<le> 4"
  shows "size_denoted (decimal w @ ''.'' @ decimal fr @ '' '' @ units ! i)
           = Some ((of_nat w + of_nat fr / 10) * 1024 ^ i)"
proof -
  let ?num = "decimal w @ ''.'' @ decimal fr"
  have c: "\<forall>c \<in> set ?num. c \<noteq> CHR '' ''"
    using decimal_chars[of w] decimal_chars[of fr] by auto
  have s: "decimal w @ ''.'' @ decimal fr @ '' '' @ units ! i = ?num @ CHR '' '' # units ! i"
    by simp
  have n: "takeWhile (\<lambda>c. c \<noteq> CHR '' '') (?num @ CHR '' '' # units ! i) = ?num"
    and u: "dropWhile (\<lambda>c. c \<noteq> CHR '' '') (?num @ CHR '' '' # units ! i) = CHR '' '' # units ! i"
    using takeWhile_sep[of ?num "\<lambda>c. c \<noteq> CHR '' ''" "CHR '' ''" "units ! i"] c by simp_all
  have w: "takeWhile (\<lambda>c. c \<noteq> CHR ''.'') ?num = decimal w"
    and f: "dropWhile (\<lambda>c. c \<noteq> CHR ''.'') ?num = CHR ''.'' # decimal fr"
    using takeWhile_sep[of "decimal w" "\<lambda>c. c \<noteq> CHR ''.''" "CHR ''.''" "decimal fr"]
      decimal_chars[of w] by simp_all
  have l: "length (decimal fr) = 1" using assms(1) by (simp add: decimal_small)
  show ?thesis
    unfolding s size_denoted_def Let_def n u w f
    using assms decimal_chars[of fr]
    by (simp add: parse_decimal_decimal index_of_unit l del: index_of.simps)
qed

lemma size_denoted_zero: "size_denoted ''0 B'' = Some 0"
  by code_simp

lemma formatByteSize_denoted:
  assumes "0 < bytes"
  shows "size_denoted (formatByteSize bytes)
           = Some (denoted_size (formatByteSize_loop (float64_of_int64 bytes) 0))"
proof -
  obtain f i where l: "formatByteSize_loop (float64_of_int64 bytes) 0 = (f, i)"
    by (cases "formatByteSize_loop (float64_of_int64 bytes) 0")
  have f1: "1 \<le> f"
    using loop_ge_1[OF float64_of_int64_ge_1[OF assms], of 0] l by simp
  have i4: "i \<le> 4" using loop_index[of 0 "float64_of_int64 bytes"] l by simp
  let ?t = "nat (round_half_even (f * 10))"
  have "of_int 0 \<le> f * 10" using f1 by simp
  then have "0 \<le> round_half_even (f * 10)" by (rule round_half_even_ge)
  then have t: "(of_nat ?t :: rat) = of_int (round_half_even (f * 10))" by simp
  have "formatByteSize bytes
          = decimal (?t div 10) @ ''.'' @ decimal (?t mod 10) @ '' '' @ units ! i"
    using assms l by (simp add: formatByteSize_def Sprintf_1f_def Let_def)
  moreover have "size_denoted (decimal (?t div 10) @ ''.'' @ decimal (?t mod 10) @ '' '' @ units ! i)
                   = Some ((of_nat (?t div 10) + of_nat (?t mod 10) / 10) * 1024 ^ i)"
    using i4 by (intro size_denoted_rendered) simp_all
  moreover have "(of_nat (?t div 10) + of_nat (?t mod 10) / 10 :: rat) = of_nat ?t / 10"
  proof -
    have "?t = 10 * (?t div 10) + ?t mod 10" by simp
    then have "(of_nat ?t :: rat) = 10 * of_nat (?t div 10) + of_nat (?t mod 10)"
      by (metis of_nat_add of_nat_mult of_nat_numeral)
    then show ?thesis by simp
  qed
  ultimately show ?thesis using l t by (simp add: denoted_size_def)
qed

lemma denoted_size_nonneg:
  "0 < bytes \<Longrightarrow> 0 \<le> denoted_size (formatByteSize_loop (float64_of_int64 bytes) 0)"
  using loop_lower[OF float64_of_int64_ge_1, of bytes 0] by simp

text \<open>
  C9. \<open>formatByteSize 0\<close> is "0 B", \<open>formatByteSize 1536\<close> is "1.5 KB", and the size a
  result denotes (its decimal number times the power of 1024 of its unit) never
  decreases when the byte count grows.
\<close>

theorem formatByteSize_examples_monotonic:
  "formatByteSize 0 = ''0 B''
   \<and> formatByteSize 1536 = ''1.5 KB''
   \<and> (a \<le> b \<longrightarrow>
        (\<exists>x y. size_denoted (formatByteSize a) = Some x
              \<and> size_denoted (formatByteSize b) = Some y \<and> x \<le> y))"
proof (intro conjI impI)
  show "formatByteSize 0 = ''0 B''" by (simp add: formatByteSize_def)
  show "formatByteSize 1536 = ''1.5 KB''" by code_simp
  assume ab: "a \<le> b"
  show "\<exists>x y. size_denoted (formatByteSize a) = Some x
              \<and> size_denoted (formatByteSize b) = Some y \<and> x \<le> y"
  proof (cases "0 < a")
    case True
    then have b: "0 < b" using ab by simp
    from formatByteSize_denoted[OF True] formatByteSize_denoted[OF b]
      formatByteSize_loop_mono[OF True ab]
    show ?thesis by simp
  next
    case False
    then have a: "size_denoted (formatByteSize a) = Some 0"
      by (simp add: formatByteSize_def size_denoted_zero)
    show ?thesis
    proof (cases "0 < b")
      case True
      from formatByteSize_denoted[OF True] denoted_size_nonneg[OF True] a
      show ?thesis by simp
    next
      case False
      then have "size_denoted (formatByteSize b) = Some 0"
        by (simp add: formatByteSize_def size_denoted_zero)
      with a show ?thesis by simp
    qed
  qed
qed

theorem formatByteSize_examples_monotonic_witness:
  "(1023::int) \<le> 1024
   \<and> (\<exists>x y. size_denoted (formatByteSize 1023) = Some x
           \<and> size_denoted (formatByteSize 1024) = Some y \<and> x \<le> y)"
  using formatByteSize_examples_monotonic[of 1023 1024] by simp

subsection \<open>Listing\<close>

lemma ListObjects_group_eq:
  "ListObjects_group P (fm, fk, fs) obj =
     (case folder_of P obj of
        Some b \<Rightarrow> if fm (Key b) = None then (fm(Key b \<mapsto> b), fk @ [Key b], fs) else (fm, fk, fs)
      | None \<Rightarrow> (case file_of P obj of Some b \<Rightarrow> (fm, fk, fs @ [b]) | None \<Rightarrow> (fm, fk, fs)))"
  by (simp add: ListObjects_group_def folder_of_def file_of_def Let_def split: option.splits)

lemma map_filter_snoc:
  "List.map_filter f (xs @ [x])
     = List.map_filter f xs @ (case f x of None \<Rightarrow> [] | Some y \<Rightarrow> [y])"
  by (simp add: List.map_filter_def split: option.splits)

lemma folder_file_exclusive: "folder_of P obj = Some b \<Longrightarrow> file_of P obj = None"
  by (auto simp: folder_of_def file_of_def split: option.splits if_splits)

lemma folder_of_kind: "folder_of P obj = Some b \<Longrightarrow> Kind b = ''folder''"
  by (auto simp: folder_of_def folder_entry_def Let_def split: option.splits if_splits)

lemma file_of_kind: "file_of P obj = Some b \<Longrightarrow> Kind b = ''file''"
  by (auto simp: file_of_def file_entry_def split: option.splits if_splits)

lemma grouping_ok_step:
  assumes "grouping_ok P objs acc"
  shows "grouping_ok P (objs @ [obj]) (ListObjects_group P acc obj)"
proof -
  obtain fm fk fs where acc: "acc = (fm, fk, fs)" by (cases acc)
  from assms acc have d: "distinct fk" and m: "dom fm = set fk"
    and l: "\<forall>k \<in> set fk. \<exists>b. fm k = Some b \<and> Key b = k \<and> Kind b = ''folder''"
    and s: "set fk = Key ` set (List.map_filter (folder_of P) objs)"
    and f: "fs = List.map_filter (file_of P) objs"
    by (simp_all add: grouping_ok_def)
  show ?thesis
  proof (cases "folder_of P obj")
    case (Some b)
    note k = folder_of_kind[OF Some] and x = folder_file_exclusive[OF Some]
    show ?thesis
    proof (cases "fm (Key b) = None")
      case True
      then have "Key b \<notin> set fk" using m by auto
      then show ?thesis using Some True d m l s f k x acc
        by (auto simp: grouping_ok_def ListObjects_group_eq map_filter_snoc)
    next
      case False
      then have "Key b \<in> set fk" using m by auto
      then show ?thesis using Some False d m l s f x acc
        by (auto simp: grouping_ok_def ListObjects_group_eq map_filter_snoc)
    qed
  next
    case None
    then show ?thesis using d m l s f acc
      by (cases "file_of P obj")
         (auto simp: grouping_ok_def ListObjects_group_eq map_filter_snoc)
  qed
qed

lemma grouping_ok_fold:
  "grouping_ok P objs (foldl (ListObjects_group P) (Map.empty, [], []) objs)"
proof (induction objs rule: rev_induct)
  case Nil
  show ?case by (simp add: grouping_ok_def List.map_filter_def)
next
  case (snoc obj objs)
  then show ?case using grouping_ok_step[of P objs _ obj] by simp
qed

lemma project_shape:
  obtains fm fk fs where
    "ListObjects_project srt ul objs P
       = map (folder_lookup fm) (sort fk) @ srt (files_less ul) fs"
    "ListObjects_grouped objs P = map (folder_lookup fm) fk @ fs"
    "distinct fk"
    "\<forall>k \<in> set fk. Key (folder_lookup fm k) = k \<and> Kind (folder_lookup fm k) = ''folder''"
    "set fk = Key ` set (List.map_filter (folder_of P) objs)"
    "fs = List.map_filter (file_of P) objs"
proof -
  obtain fm fk fs where f: "foldl (ListObjects_group P) (Map.empty, [], []) objs = (fm, fk, fs)"
    by (metis surj_pair)
  from grouping_ok_fold[of P objs] f
  have g: "distinct fk"
    "\<forall>k \<in> set fk. \<exists>b. fm k = Some b \<and> Key b = k \<and> Kind b = ''folder''"
    "set fk = Key ` set (List.map_filter (folder_of P) objs)"
    "fs = List.map_filter (file_of P) objs"
    by (simp_all add: grouping_ok_def)
  have l: "\<forall>k \<in> set fk. Key (folder_lookup fm k) = k \<and> Kind (folder_lookup fm k) = ''folder''"
    using g(2) by (auto simp: folder_lookup_def)
  have p: "ListObjects_project srt ul objs P
       = map (folder_lookup fm) (sort fk) @ srt (files_less ul) fs"
    using f by (simp add: ListObjects_project_def folder_lookup_def[abs_def])
  have q: "ListObjects_grouped objs P = map (folder_lookup fm) fk @ fs"
    using f by (simp add: ListObjects_grouped_def folder_lookup_def[abs_def])
  from that[OF p q g(1) l g(3) g(4)] show ?thesis .
qed

lemma map_Key_lookup:
  "\<forall>k \<in> set ks. Key (folder_lookup fm k) = k \<Longrightarrow> map Key (map (folder_lookup fm) ks) = ks"
  by (induction ks) auto

lemma files_kind: "b \<in> set (List.map_filter (file_of P) objs) \<Longrightarrow> Kind b = ''file''"
  by (auto simp: List.map_filter_def dest: file_of_kind)

lemma HasSuffix_slash: "strings_HasSuffix s ''/'' \<longleftrightarrow> s \<noteq> [] \<and> last s = CHR ''/''"
proof (cases "s = []")
  case True
  then show ?thesis by (simp add: strings_HasSuffix_def)
next
  case False
  then have "s = butlast s @ [last s]" by simp
  then have "drop (length s - 1) s = [last s]"
    by (metis append_eq_conv_conj length_butlast)
  then show ?thesis using False
    by (auto simp: strings_HasSuffix_def Suc_le_eq)
qed

lemma Index_single: "strings_Index s [c] \<noteq> None \<longleftrightarrow> c \<in> set s"
  by (induction s) (auto simp: strings_HasPrefix_def)

lemma Contains_slash: "strings_Contains s ''/'' \<longleftrightarrow> CHR ''/'' \<in> set s"
  unfolding strings_Contains_def by (rule Index_single)

lemma ListObjects_key_plain:
  assumes "P = [] \<or> \<not> strings_HasPrefix key0 (P @ ''/'')"
  shows "ListObjects_key P key0
           = (if strings_HasPrefix key0 P \<and> drop (length P) key0 \<noteq> []
              then Some (drop (length P) key0) else None)"
proof (cases "P = []")
  case True
  then show ?thesis by (simp add: ListObjects_key_def strings_HasPrefix_def)
next
  case False
  show ?thesis
  proof (cases "strings_HasPrefix key0 P")
    case nf: False
    then show ?thesis using False by (simp add: ListObjects_key_def)
  next
    case True
    then obtain t where t: "key0 = P @ t" by (auto simp: HasPrefix_append)
    have "\<not> strings_HasPrefix t ''/''"
      using assms False t by (auto simp: HasPrefix_append)
    then show ?thesis using False True t
      by (simp add: ListObjects_key_def strings_TrimPrefix_def Let_def)
  qed
qed

lemma folder_entry_key:
  assumes "key \<noteq> []" and "P = [] \<or> hd key \<noteq> CHR ''/''"
  shows "Key (folder_entry P key) = P @ takeWhile (\<lambda>c. c \<noteq> CHR ''/'') key @ ''/''"
proof -
  let ?raw = "takeWhile (\<lambda>c. c \<noteq> CHR ''/'') key"
  have "\<not> strings_HasSuffix (P @ ?raw) ''/''"
  proof (cases "?raw = []")
    case False
    then have "last ?raw \<in> set ?raw" by simp
    then have "last ?raw \<noteq> CHR ''/''" by (auto dest: set_takeWhileD)
    then show ?thesis using False by (simp add: HasSuffix_slash)
  next
    case True
    then have "hd key = CHR ''/''" using assms(1) by (cases key) (auto split: if_splits)
    then have "P = []" using assms(2) by simp
    then show ?thesis using True by (simp add: HasSuffix_slash)
  qed
  then show ?thesis by (simp add: folder_entry_def strings_SplitN2_first_def Let_def)
qed

lemma entry_segment:
  assumes k: "Object_Key obj = Some key0"
    and h: "P = [] \<or> \<not> strings_HasPrefix key0 (P @ ''/'')"
  shows "(case child_segment P key0 of
            None \<Rightarrow> folder_of P obj = None \<and> file_of P obj = None
          | Some seg \<Rightarrow>
              if CHR ''/'' \<in> set (drop (length P) key0)
              then (\<exists>b. folder_of P obj = Some b \<and> Key b = P @ seg) \<and> file_of P obj = None
              else (\<exists>b. file_of P obj = Some b \<and> Key b = P @ seg \<and> Key b = key0)
                   \<and> folder_of P obj = None)"
proof (cases "strings_HasPrefix key0 P \<and> drop (length P) key0 \<noteq> []")
  case False
  then have lk: "ListObjects_key P key0 = None" using ListObjects_key_plain[OF h] by simp
  have "child_segment P key0 = None" using False by (auto simp: child_segment_def)
  then show ?thesis using k lk by (simp add: folder_of_def file_of_def)
next
  case True
  let ?key = "drop (length P) key0"
  have lk: "ListObjects_key P key0 = Some ?key" using True ListObjects_key_plain[OF h] by simp
  from True obtain t where t: "key0 = P @ t" by (auto simp: HasPrefix_append)
  have hd: "P = [] \<or> hd ?key \<noteq> CHR ''/''"
  proof (cases "P = []")
    case False
    then have "\<not> strings_HasPrefix t ''/''" using h t by (auto simp: HasPrefix_append)
    moreover have "t \<noteq> []" using True t by simp
    ultimately show ?thesis using t
      by (cases t) (auto simp: strings_HasPrefix_def)
  qed simp
  show ?thesis
  proof (cases "CHR ''/'' \<in> set ?key")
    case c: True
    have "folder_of P obj = Some (folder_entry P ?key)" "file_of P obj = None"
      using k lk c by (simp_all add: folder_of_def file_of_def Contains_slash)
    moreover have "Key (folder_entry P ?key) = P @ takeWhile (\<lambda>c. c \<noteq> CHR ''/'') ?key @ ''/''"
      using True hd by (intro folder_entry_key) simp_all
    ultimately show ?thesis using True c by (simp add: child_segment_def Let_def)
  next
    case c: False
    have "file_of P obj = Some (file_entry P ?key obj)" "folder_of P obj = None"
      using k lk c by (simp_all add: folder_of_def file_of_def Contains_slash)
    moreover have "Key (file_entry P ?key obj) = key0" using t by (simp add: file_entry_def)
    ultimately show ?thesis using True c t by (simp add: child_segment_def Let_def)
  qed
qed

lemma folder_key_last: "folder_of P obj = Some b \<Longrightarrow> last (Key b) = CHR ''/''"
  by (auto simp: folder_of_def folder_entry_def Let_def HasSuffix_slash
           split: option.splits if_splits)

lemma ListObjects_key_nonempty: "ListObjects_key P key0 = Some key \<Longrightarrow> key \<noteq> []"
  by (auto simp: ListObjects_key_def Let_def split: if_splits)

lemma file_key_last: "file_of P obj = Some b \<Longrightarrow> last (Key b) \<noteq> CHR ''/''"
proof -
  assume a: "file_of P obj = Some b"
  then obtain key0 key where k: "ListObjects_key P key0 = Some key"
    and c: "\<not> strings_Contains key ''/''" and b: "b = file_entry P key obj"
    by (auto simp: file_of_def split: option.splits if_splits)
  have ne: "key \<noteq> []" using k by (rule ListObjects_key_nonempty)
  then have "last key \<in> set key" by simp
  then have "last key \<noteq> CHR ''/''" using c by (auto simp: Contains_slash)
  then show ?thesis using b ne by (simp add: file_entry_def)
qed

lemma in_map_filter: "y \<in> set (List.map_filter f xs) \<longleftrightarrow> (\<exists>x \<in> set xs. f x = Some y)"
  by (auto simp: List.map_filter_def image_iff)

lemma entry_has_key:
  "folder_of P obj = Some b \<or> file_of P obj = Some b \<Longrightarrow> \<exists>key0. Object_Key obj = Some key0"
  by (auto simp: folder_of_def file_of_def split: option.splits)

lemma entry_keys_segments:
  assumes h: "P = [] \<or> (\<forall>k \<in> set (List.map_filter Object_Key objs). \<not> strings_HasPrefix k (P @ ''/''))"
  shows "Key ` set (List.map_filter (folder_of P) objs) \<union> Key ` set (List.map_filter (file_of P) objs)
           = {P @ seg |seg. \<exists>k \<in> set (List.map_filter Object_Key objs). child_segment P k = Some seg}"
    (is "?L = ?R")
proof (intro set_eqI iffI)
  fix x assume "x \<in> ?L"
  then have "\<exists>obj b. obj \<in> set objs \<and> (folder_of P obj = Some b \<or> file_of P obj = Some b)
                 \<and> x = Key b"
    unfolding Un_iff image_iff Bex_def in_map_filter by blast
  then obtain obj b where o: "obj \<in> set objs" and b: "folder_of P obj = Some b \<or> file_of P obj = Some b"
    and x: "x = Key b" by blast
  from entry_has_key[OF b] obtain key0 where k: "Object_Key obj = Some key0" by blast
  then have ks: "key0 \<in> set (List.map_filter Object_Key objs)" using o by (auto simp: in_map_filter)
  then have "P = [] \<or> \<not> strings_HasPrefix key0 (P @ ''/'')" using h by auto
  from entry_segment[OF k this] b x ks show "x \<in> ?R"
    by (cases "child_segment P key0") (auto split: if_splits)
next
  fix x assume "x \<in> ?R"
  then obtain seg key0 where ks: "key0 \<in> set (List.map_filter Object_Key objs)"
    and c: "child_segment P key0 = Some seg" and x: "x = P @ seg" by auto
  from ks obtain obj where o: "obj \<in> set objs" and k: "Object_Key obj = Some key0"
    by (auto simp: in_map_filter)
  have "P = [] \<or> \<not> strings_HasPrefix key0 (P @ ''/'')" using h ks by auto
  from entry_segment[OF k this] c
  have "\<exists>b. (folder_of P obj = Some b \<or> file_of P obj = Some b) \<and> Key b = P @ seg"
    by (auto split: if_splits)
  then obtain b where b: "folder_of P obj = Some b \<or> file_of P obj = Some b"
    and kb: "Key b = P @ seg" by blast
  from b o have "b \<in> set (List.map_filter (folder_of P) objs)
                 \<or> b \<in> set (List.map_filter (file_of P) objs)"
    unfolding in_map_filter by blast
  then show "x \<in> ?L" using kb x by (metis UnI1 UnI2 imageI)
qed

lemma map_filter_sub_distinct:
  assumes "\<forall>x \<in> set xs. \<forall>y. g x = Some y \<longrightarrow> h x = Some y"
  shows "set (List.map_filter g xs) \<subseteq> set (List.map_filter h xs)
         \<and> (distinct (List.map_filter h xs) \<longrightarrow> distinct (List.map_filter g xs))"
  using assms
proof (induction xs)
  case Nil
  show ?case by (simp add: List.map_filter_def)
next
  case (Cons x xs)
  then have ih: "set (List.map_filter g xs) \<subseteq> set (List.map_filter h xs)"
    "distinct (List.map_filter h xs) \<longrightarrow> distinct (List.map_filter g xs)" by auto
  show ?case
  proof (cases "g x")
    case None
    then show ?thesis using ih by (cases "h x") (auto simp: map_filter_simps)
  next
    case (Some y)
    then have "h x = Some y" using Cons.prems by simp
    then show ?thesis using Some ih by (auto simp: map_filter_simps)
  qed
qed

lemma map_Key_map_filter:
  "map Key (List.map_filter f xs) = List.map_filter (\<lambda>x. map_option Key (f x)) xs"
  by (induction xs) (auto simp: map_filter_simps split: option.splits)

lemma file_keys_distinct:
  assumes h: "P = [] \<or> (\<forall>k \<in> set (List.map_filter Object_Key objs). \<not> strings_HasPrefix k (P @ ''/''))"
    and d: "distinct (List.map_filter Object_Key objs)"
  shows "distinct (map Key (List.map_filter (file_of P) objs))"
proof -
  have "\<forall>obj \<in> set objs. \<forall>y. map_option Key (file_of P obj) = Some y \<longrightarrow> Object_Key obj = Some y"
  proof (intro ballI allI impI)
    fix obj y assume o: "obj \<in> set objs" and m: "map_option Key (file_of P obj) = Some y"
    then obtain b where b: "file_of P obj = Some b" and y: "y = Key b" by auto
    from entry_has_key[of P obj b] b obtain key0 where k: "Object_Key obj = Some key0" by blast
    then have "key0 \<in> set (List.map_filter Object_Key objs)" using o by (auto simp: in_map_filter)
    then have "P = [] \<or> \<not> strings_HasPrefix key0 (P @ ''/'')" using h by auto
    from entry_segment[OF k this] b y k show "Object_Key obj = Some y"
      by (cases "child_segment P key0") (auto split: if_splits)
  qed
  from map_filter_sub_distinct[OF this] d show ?thesis by (simp add: map_Key_map_filter)
qed

lemma insert_left_mset: "mset (insert_left lessFn x s) = add_mset x (mset s)"
proof -
  have "mset (rev (dropWhile (lessFn x) (rev s))) + mset (rev (takeWhile (lessFn x) (rev s)))
          = mset (takeWhile (lessFn x) (rev s) @ dropWhile (lessFn x) (rev s))"
    by (simp only: mset_append mset_rev add.commute)
  also have "\<dots> = mset s" by simp
  finally show ?thesis by (simp add: insert_left_def)
qed

lemma insertion_sort_foldl_mset:
  "mset (foldl (\<lambda>sorted_part x. insert_left lessFn x sorted_part) acc xs) = mset acc + mset xs"
  by (induction xs arbitrary: acc) (simp_all add: insert_left_mset)

lemma insertion_sort_mset: "mset (insertion_sort lessFn xs) = mset xs"
  by (simp add: insertion_sort_def insertion_sort_foldl_mset)







lemma child_segment_nonempty: "child_segment P k = Some seg \<Longrightarrow> seg \<noteq> []"
  by (auto simp: child_segment_def Let_def split: if_splits)

lemma segments_set:
  "{P @ seg |seg. \<exists>k \<in> set keys. child_segment P k = Some seg}
     = set (map ((@) P) (List.map_filter (child_segment P) keys))"
proof -
  have "set (List.map_filter (child_segment P) keys)
          = {seg. \<exists>k \<in> set keys. child_segment P k = Some seg}"
    using in_map_filter[of _ "child_segment P" keys] by blast
  then show ?thesis by (simp only: set_map) blast
qed

lemma project_keys:
  assumes perm: "\<And>fs. mset (srt (files_less ul) fs) = mset fs"
  shows "\<exists>folders files.
      ListObjects_project srt ul objs P = folders @ files
    \<and> (\<forall>b \<in> set folders. Kind b = ''folder'')
    \<and> (\<forall>b \<in> set files. Kind b = ''file'')
    \<and> sorted (map Key folders) \<and> distinct (map Key folders)
    \<and> set (map Key folders) = Key ` set (List.map_filter (folder_of P) objs)
    \<and> mset files = mset (List.map_filter (file_of P) objs)
    \<and> files = srt (files_less ul) (List.map_filter (file_of P) objs)
    \<and> mset (ListObjects_project srt ul objs P) = mset (ListObjects_grouped objs P)"
proof -
  obtain fm fk fs where
    p: "ListObjects_project srt ul objs P
          = map (folder_lookup fm) (sort fk) @ srt (files_less ul) fs"
    and q: "ListObjects_grouped objs P = map (folder_lookup fm) fk @ fs"
    and d: "distinct fk"
    and l: "\<forall>k \<in> set fk. Key (folder_lookup fm k) = k \<and> Kind (folder_lookup fm k) = ''folder''"
    and s: "set fk = Key ` set (List.map_filter (folder_of P) objs)"
    and f: "fs = List.map_filter (file_of P) objs"
    by (rule project_shape[of srt ul objs P])
  let ?folders = "map (folder_lookup fm) (sort fk)"
  let ?files = "srt (files_less ul) fs"
  have k: "map Key ?folders = sort fk"
    using l by (intro map_Key_lookup) simp
  have "set ?files = set fs" using perm[of fs] by (rule mset_eq_setD)
  then have fkind: "\<forall>b \<in> set ?files. Kind b = ''file''" using f files_kind by auto
  have "mset ?folders = mset (map (folder_lookup fm) fk)" by simp
  then have m: "mset (?folders @ ?files) = mset (map (folder_lookup fm) fk @ fs)"
    using perm[of fs] by simp
  have 1: "\<forall>b \<in> set ?folders. Kind b = ''folder''" using l by simp
  have 2: "sorted (map Key ?folders)" using k by simp
  have 3: "distinct (map Key ?folders)" using k d by simp
  have 4: "set (map Key ?folders) = Key ` set (List.map_filter (folder_of P) objs)"
    using k s by simp
  have 5: "mset ?files = mset (List.map_filter (file_of P) objs)" using perm[of fs] f by simp
  have 6: "?files = srt (files_less ul) (List.map_filter (file_of P) objs)" using f by simp
  have 7: "mset (ListObjects_project srt ul objs P) = mset (ListObjects_grouped objs P)"
    using p q m by simp
  show ?thesis
    by (rule exI[of _ ?folders], rule exI[of _ ?files]) (intro conjI p 1 fkind 2 3 4 5 6 7)
qed

text \<open>
  C5. For every prefix and every listing, the projected listing is a run of folder entries
  followed by a run of file entries, and no two folder entries have the same key, however
  many keys lie under a folder. When no listed key goes on with a slash right after a
  non-empty prefix, the keys of the entries are exactly the prefix followed by the
  immediate child segments of the listed keys (the prefix itself, its folder marker, is
  not among them), and when the listed keys are distinct no two entries have the same key.
\<close>

theorem ListObjects_children:
  assumes perm: "\<And>fs. mset (sort_Slice (files_less unicode_lower) fs) = mset fs"
  shows "\<exists>folders files.
           ListObjects_project sort_Slice unicode_lower objs P = folders @ files
         \<and> (\<forall>b \<in> set folders. Kind b = ''folder'') \<and> (\<forall>b \<in> set files. Kind b = ''file'')
         \<and> distinct (map Key folders)
         \<and> ((P = [] \<or> (\<forall>k \<in> set (List.map_filter Object_Key objs).
                            \<not> strings_HasPrefix k (P @ ''/'')))
              \<longrightarrow> set (map Key (folders @ files))
                    = set (map ((@) P)
                             (List.map_filter (child_segment P) (List.map_filter Object_Key objs)))
                \<and> P \<notin> set (map Key (folders @ files))
                \<and> (distinct (List.map_filter Object_Key objs)
                      \<longrightarrow> distinct (map Key (folders @ files))))"
proof -
  let ?keys = "List.map_filter Object_Key objs"
  from project_keys[of sort_Slice unicode_lower objs P, OF perm]
  obtain folders files where
    p: "ListObjects_project sort_Slice unicode_lower objs P = folders @ files"
    and kf: "\<forall>b \<in> set folders. Kind b = ''folder''"
    and kl: "\<forall>b \<in> set files. Kind b = ''file''"
    and d: "distinct (map Key folders)"
    and sf: "set (map Key folders) = Key ` set (List.map_filter (folder_of P) objs)"
    and ms: "mset files = mset (List.map_filter (file_of P) objs)"
    by blast
  have sl: "set (map Key files) = Key ` set (List.map_filter (file_of P) objs)"
    using mset_eq_setD[OF ms] by simp
  have cond: "set (map Key (folders @ files))
                = set (map ((@) P) (List.map_filter (child_segment P) ?keys))
              \<and> P \<notin> set (map Key (folders @ files))
              \<and> (distinct ?keys \<longrightarrow> distinct (map Key (folders @ files)))"
    if h: "P = [] \<or> (\<forall>k \<in> set ?keys. \<not> strings_HasPrefix k (P @ ''/''))"
  proof (intro conjI impI)
    have "set (map Key (folders @ files))
            = Key ` set (List.map_filter (folder_of P) objs)
              \<union> Key ` set (List.map_filter (file_of P) objs)"
      using sf sl by simp
    then show e: "set (map Key (folders @ files))
                    = set (map ((@) P) (List.map_filter (child_segment P) ?keys))"
      using entry_keys_segments[OF h] segments_set[of P ?keys] by simp
    show "P \<notin> set (map Key (folders @ files))"
    proof
      assume "P \<in> set (map Key (folders @ files))"
      then have "P \<in> (@) P ` set (List.map_filter (child_segment P) ?keys)"
        unfolding e by simp
      then obtain seg where "seg \<in> set (List.map_filter (child_segment P) ?keys)"
        and "P = P @ seg" by blast
      then show False unfolding in_map_filter by (auto dest: child_segment_nonempty)
    qed
  next
    assume dk: "distinct ?keys"
    have "mset (map Key files) = mset (map Key (List.map_filter (file_of P) objs))"
      using ms by (metis mset_map)
    then have dl: "distinct (map Key files)"
      using file_keys_distinct[OF h dk] by (metis mset_eq_imp_distinct_iff)
    have "set (map Key folders) \<inter> set (map Key files) = {}"
    proof (rule ccontr)
      assume "set (map Key folders) \<inter> set (map Key files) \<noteq> {}"
      then obtain x where "x \<in> Key ` set (List.map_filter (folder_of P) objs)"
        and "x \<in> Key ` set (List.map_filter (file_of P) objs)"
        using sf sl by auto
      then obtain a b where "a \<in> set (List.map_filter (folder_of P) objs)"
        "b \<in> set (List.map_filter (file_of P) objs)" "x = Key a" "x = Key b"
        by blast
      then obtain o1 o2 where "folder_of P o1 = Some a" "file_of P o2 = Some b"
        "x = Key a" "x = Key b"
        unfolding in_map_filter by blast
      then show False using folder_key_last[of P o1 a] file_key_last[of P o2 b] by simp
    qed
    then show "distinct (map Key (folders @ files))" using d dl by simp
  qed
  show ?thesis
    using p kf kl d cond by (intro exI[of _ folders] exI[of _ files]) blast
qed

theorem ListObjects_children_witness:
  "(\<forall>fs. mset (insertion_sort (files_less id) fs) = mset fs)
   \<and> List.map_filter Object_Key listing = [''p/'', ''p/a/x'', ''p/b'', ''p/a/y'', ''p/C/d/e'']
   \<and> \<not> strings_HasPrefix ''p/'' ''p//'' \<and> \<not> strings_HasPrefix ''p/a/x'' ''p//''
   \<and> \<not> strings_HasPrefix ''p/b'' ''p//'' \<and> \<not> strings_HasPrefix ''p/a/y'' ''p//''
   \<and> \<not> strings_HasPrefix ''p/C/d/e'' ''p//''
   \<and> (\<exists>folders files.
         ListObjects_project insertion_sort id listing ''p/'' = folders @ files
       \<and> distinct (map Key folders)
       \<and> set (map Key (folders @ files)) = {''p/a/'', ''p/b'', ''p/C/''}
       \<and> distinct (map Key (folders @ files)))"
proof -
  have k: "List.map_filter Object_Key listing = [''p/'', ''p/a/x'', ''p/b'', ''p/a/y'', ''p/C/d/e'']"
    by (simp add: listing_def keys_listing_def List.map_filter_def)
  have n: "\<not> strings_HasPrefix ''p/'' ''p//''" "\<not> strings_HasPrefix ''p/a/x'' ''p//''"
    "\<not> strings_HasPrefix ''p/b'' ''p//''" "\<not> strings_HasPrefix ''p/a/y'' ''p//''"
    "\<not> strings_HasPrefix ''p/C/d/e'' ''p//''"
    by (simp_all add: strings_HasPrefix_def)
  have s: "set (map ((@) ''p/'') (List.map_filter (child_segment ''p/'')
                  [''p/'', ''p/a/x'', ''p/b'', ''p/a/y'', ''p/C/d/e'']))
             = {''p/a/'', ''p/b'', ''p/C/''}"
    by (auto simp: List.map_filter_def child_segment_def strings_HasPrefix_def)
  from ListObjects_children[of insertion_sort id listing "''p/''"]
  obtain folders files where
    "ListObjects_project insertion_sort id listing ''p/'' = folders @ files"
    "distinct (map Key folders)"
    "set (map Key (folders @ files)) = {''p/a/'', ''p/b'', ''p/C/''}"
    "distinct (map Key (folders @ files))"
    unfolding k s using n by (auto simp: insertion_sort_mset)
  then show ?thesis using k n by (simp add: insertion_sort_mset) blast
qed

theorem ListObjects_children_counterexample:
  "map Key (ListObjects_project insertion_sort id (keys_listing [''p//foo'', ''p///foo'']) ''p/'')
     = [''p/foo'', ''p/foo'']
   \<and> map Kind (ListObjects_project insertion_sort id (keys_listing [''p//foo'', ''p///foo'']) ''p/'')
     = [''file'', ''file'']
   \<and> map (child_segment ''p/'') [''p//foo'', ''p///foo''] = [Some ''/'', Some ''/'']"
  by (simp add: ListObjects_project_def keys_listing_def ListObjects_group_def
        ListObjects_key_def folder_entry_def file_entry_def strings_HasPrefix_def
        strings_TrimPrefix_def strings_TrimLeft_def strings_Contains_def
        insertion_sort_def insert_left_def files_less_def child_segment_def Let_def
        strings_ToLower_def isASCII_def ascii_lower_def)





end
